theory Spec2Isabelle
  imports Main
begin

section \<open>The downstream HTTP boundary\<close>

text \<open>
  The arbiter talks to the device services through \<open>a.client\<close> (net/http), reads the
  wall clock and decodes bodies with encoding/json. None of the three is code of the
  arbiter, so they are parameters of the model, collected in the record \<open>world\<close>.
  A Go \<open>error\<close> is modelled by its message (what \<open>err.Error()\<close> returns); \<open>nil\<close> is
  \<open>None\<close>.
\<close>

datatype http_method = GET | POST | DELETE

record http_request =
  req_method :: http_method
  req_url :: string
  req_body :: "string option"
  req_content_type :: "string option"

text \<open>
  What one request comes back with: \<open>RequestErr\<close> is \<open>http.NewRequest\<close> refusing the
  request, \<open>TransportErr\<close> is \<open>client.Do\<close> (or \<open>client.Get\<close>) returning an error, and
  \<open>Response code body rerr\<close> is a response with its status code, the bytes
  \<open>io.ReadAll\<close> returns and the error \<open>io.ReadAll\<close> returns with them.
\<close>

datatype http_reply =
    RequestErr string
  | TransportErr string
  | Response int string "string option"

text \<open>
  A decoded JSON value (\<open>interface{}\<close> after \<open>json.Unmarshal\<close>). An object is the list of
  the entries of the decoded Go map, each key once; the code never looks into a number.
\<close>

datatype json =
    JNull
  | JBool bool
  | JNum int
  | JStr string
  | JArr "json list"
  | JObj "(string \<times> json) list"

text \<open>
  \<open>do_request w i r\<close> is the reply to request \<open>r\<close> when \<open>i\<close> requests have been made
  before it; \<open>now w i\<close> is \<open>time.Now().Format(time.RFC3339)\<close> at that moment;
  \<open>json_unmarshal w body\<close> is \<open>json.Unmarshal\<close> into a \<open>map[string]interface{}\<close>
  (\<open>Inl\<close> the error).
\<close>

record world =
  do_request :: "nat \<Rightarrow> http_request \<Rightarrow> http_reply"
  json_unmarshal :: "string \<Rightarrow> string + (string \<times> json) list"
  now :: "nat \<Rightarrow> string"

section \<open>The data model\<close>

text \<open>config.Service\<close>

record Service =
  cfg_Name :: string
  cfg_DisplayName :: string
  cfg_BaseURL :: string
  cfg_Priority :: int

text \<open>arbiter.ServiceStatus; \<open>Priority\<close> is only ever compared, so \<open>int\<close> stands for Go's int.\<close>

record ServiceStatus =
  Name :: string
  DisplayName :: string
  BaseURL :: string
  Online :: bool
  Locked :: bool
  Active :: bool
  Priority :: int
  LastCheck :: string
  Error :: string

text \<open>
  arbiter.Arbiter. The map holds pointers that are never shared between two keys, so a
  map from names to records models it. \<open>trace\<close> is a ghost field: the requests handed
  to the HTTP client so far, oldest first. The mutex is held by every operation below
  for its whole duration, so each operation is a function from state to state.
\<close>

record Arbiter =
  services :: "string \<rightharpoonup> ServiceStatus"
  activeService :: string
  trace :: "http_request list"

text \<open>
  \<open>for name, svc := range a.services\<close> visits every key once, in an order Go leaves
  open. Each loop below takes the order as a list; \<open>iteration_order\<close> says that a list
  is one the range can produce. A name the map does not hold is never visited.
\<close>

definition iteration_order :: "Arbiter \<Rightarrow> string list \<Rightarrow> bool" where
  "iteration_order a ks \<longleftrightarrow> distinct ks \<and> set ks = dom (services a)"

definition store :: "Arbiter \<Rightarrow> string \<Rightarrow> ServiceStatus \<Rightarrow> Arbiter" where
  "store a name svc = a\<lparr>services := (services a)(name \<mapsto> svc)\<rparr>"

fun New_loop :: "Service list \<Rightarrow> (string \<rightharpoonup> ServiceStatus) \<Rightarrow> (string \<rightharpoonup> ServiceStatus)" where
  "New_loop [] m = m"
| "New_loop (svc # rest) m =
     New_loop rest (m(cfg_Name svc \<mapsto>
       \<lparr>Name = cfg_Name svc, DisplayName = cfg_DisplayName svc, BaseURL = cfg_BaseURL svc,
        Online = False, Locked = False, Active = False, Priority = cfg_Priority svc,
        LastCheck = '''', Error = ''''\<rparr>))"

definition New :: "Service list \<Rightarrow> Arbiter" where
  "New cfg_Services = \<lparr>services = New_loop cfg_Services Map.empty, activeService = '''', trace = []\<rparr>"

definition GetActiveService :: "Arbiter \<Rightarrow> string" where
  "GetActiveService a = activeService a"

section \<open>Lock adapters\<close>

text \<open>The tail both adapters share: the error they return for a reply.\<close>

fun lock_reply_error :: "http_reply \<Rightarrow> string option" where
  "lock_reply_error (RequestErr e) = Some e"
| "lock_reply_error (TransportErr e) = Some e"
| "lock_reply_error (Response code body rerr) =
     (if code \<noteq> 200 then Some (''lock request failed: '' @ body) else None)"

definition send :: "world \<Rightarrow> http_request \<Rightarrow> Arbiter \<Rightarrow> http_reply \<times> Arbiter" where
  "send w req a = (do_request w (length (trace a)) req, a\<lparr>trace := trace a @ [req]\<rparr>)"

definition usboveri2s_lock_request :: "string \<Rightarrow> bool \<Rightarrow> http_request" where
  "usboveri2s_lock_request baseURL lock =
     \<lparr>req_method = (if lock then POST else DELETE), req_url = baseURL @ ''/api/v1/lock'',
      req_body = None, req_content_type = None\<rparr>"

definition usbaudio_lock_request :: "string \<Rightarrow> bool \<Rightarrow> http_request" where
  "usbaudio_lock_request baseURL lock =
     \<lparr>req_method = POST, req_url = baseURL @ ''/api/v1/lock'',
      req_body = Some (if lock then ''{'' @ [CHR 0x22] @ ''locked'' @ [CHR 0x22] @ '':true}''
                       else ''{'' @ [CHR 0x22] @ ''locked'' @ [CHR 0x22] @ '':false}''),
      req_content_type = Some ''application/json''\<rparr>"

definition lockUSBOverI2S :: "world \<Rightarrow> string \<Rightarrow> bool \<Rightarrow> Arbiter \<Rightarrow> string option \<times> Arbiter" where
  "lockUSBOverI2S w baseURL lock a =
     (case send w (usboveri2s_lock_request baseURL lock) a of
        (reply, a') \<Rightarrow> (lock_reply_error reply, a'))"

definition lockUSBAudio :: "world \<Rightarrow> string \<Rightarrow> bool \<Rightarrow> Arbiter \<Rightarrow> string option \<times> Arbiter" where
  "lockUSBAudio w baseURL lock a =
     (case send w (usbaudio_lock_request baseURL lock) a of
        (reply, a') \<Rightarrow> (lock_reply_error reply, a'))"

text \<open>
  \<open>lockServiceInternal\<close>: \<open>None\<close> is the nil-pointer panic of \<open>svc.BaseURL\<close> when the name
  is not registered; otherwise the returned error and the new state.
\<close>

definition lockServiceInternal ::
  "world \<Rightarrow> string \<Rightarrow> bool \<Rightarrow> Arbiter \<Rightarrow> (string option \<times> Arbiter) option" where
  "lockServiceInternal w name lock a =
     (case services a name of
        None \<Rightarrow> None
      | Some svc \<Rightarrow>
          (case (if name = ''usboveri2s'' then lockUSBOverI2S w (BaseURL svc) lock a
                 else if name = ''usbaudio'' then lockUSBAudio w (BaseURL svc) lock a
                 else lockUSBAudio w (BaseURL svc) lock a) of
             (Some e, a1) \<Rightarrow> Some (Some e, store a1 name (svc\<lparr>Error := e\<rparr>))
           | (None, a1) \<Rightarrow>
               (let a2 = store a1 name (svc\<lparr>Locked := lock, Error := ''''\<rparr>)
                in Some (None, if lock \<and> activeService a2 = name
                               then a2\<lparr>activeService := ''''\<rparr> else a2))))"

section \<open>Operations requested by a caller\<close>

text \<open>
  \<open>ActivateService\<close>, the loop over the other services: a failed lock call is logged
  and the loop goes on.
\<close>

fun ActivateService_loop :: "world \<Rightarrow> string \<Rightarrow> string list \<Rightarrow> Arbiter \<Rightarrow> Arbiter option" where
  "ActivateService_loop w name [] a = Some a"
| "ActivateService_loop w name (svcName # rest) a =
     (case services a svcName of
        None \<Rightarrow> ActivateService_loop w name rest a
      | Some svc \<Rightarrow>
          if svcName \<noteq> name \<and> Online svc
          then (case lockServiceInternal w svcName True a of
                  None \<Rightarrow> None
                | Some (err, a') \<Rightarrow> ActivateService_loop w name rest a')
          else ActivateService_loop w name rest a)"

definition ActivateService ::
  "world \<Rightarrow> string list \<Rightarrow> string \<Rightarrow> Arbiter \<Rightarrow> (string option \<times> Arbiter) option" where
  "ActivateService w order name a =
     (case services a name of
        None \<Rightarrow> Some (Some (''service not found: '' @ name), a)
      | Some target \<Rightarrow>
          if \<not> Online target then Some (Some (''service is offline: '' @ name), a)
          else (case ActivateService_loop w name order a of
                  None \<Rightarrow> None
                | Some a1 \<Rightarrow>
                    (case lockServiceInternal w name False a1 of
                       None \<Rightarrow> None
                     | Some (Some e, a2) \<Rightarrow> Some (Some (''failed to unlock service: '' @ e), a2)
                     | Some (None, a2) \<Rightarrow> Some (None, a2\<lparr>activeService := name\<rparr>))))"

text \<open>\<open>DeactivateAll\<close>; the loop carries \<open>lastErr\<close>.\<close>

fun DeactivateAll_loop ::
  "world \<Rightarrow> string list \<Rightarrow> string option \<Rightarrow> Arbiter \<Rightarrow> (string option \<times> Arbiter) option" where
  "DeactivateAll_loop w [] lastErr a = Some (lastErr, a)"
| "DeactivateAll_loop w (name # rest) lastErr a =
     (case services a name of
        None \<Rightarrow> DeactivateAll_loop w rest lastErr a
      | Some svc \<Rightarrow>
          if Online svc
          then (case lockServiceInternal w name True a of
                  None \<Rightarrow> None
                | Some (Some e, a') \<Rightarrow> DeactivateAll_loop w rest (Some e) a'
                | Some (None, a') \<Rightarrow> DeactivateAll_loop w rest lastErr a')
          else DeactivateAll_loop w rest lastErr a)"

definition DeactivateAll ::
  "world \<Rightarrow> string list \<Rightarrow> Arbiter \<Rightarrow> (string option \<times> Arbiter) option" where
  "DeactivateAll w order a =
     (case DeactivateAll_loop w order None a of
        None \<Rightarrow> None
      | Some (lastErr, a') \<Rightarrow> Some (lastErr, a'\<lparr>activeService := ''''\<rparr>))"

text \<open>\<open>LockService\<close>; the loop runs only for an unlock request.\<close>

fun LockService_loop :: "world \<Rightarrow> string \<Rightarrow> string list \<Rightarrow> Arbiter \<Rightarrow> Arbiter option" where
  "LockService_loop w name [] a = Some a"
| "LockService_loop w name (svcName # rest) a =
     (case services a svcName of
        None \<Rightarrow> LockService_loop w name rest a
      | Some svc \<Rightarrow>
          if svcName \<noteq> name \<and> Online svc \<and> \<not> Locked svc
          then (case lockServiceInternal w svcName True a of
                  None \<Rightarrow> None
                | Some (err, a') \<Rightarrow> LockService_loop w name rest a')
          else LockService_loop w name rest a)"

definition LockService ::
  "world \<Rightarrow> string list \<Rightarrow> string \<Rightarrow> bool \<Rightarrow> Arbiter \<Rightarrow> (string option \<times> Arbiter) option" where
  "LockService w order name lock a =
     (case services a name of
        None \<Rightarrow> Some (Some (''service not found: '' @ name), a)
      | Some _ \<Rightarrow>
          (case (if \<not> lock then LockService_loop w name order a else Some a) of
             None \<Rightarrow> None
           | Some a1 \<Rightarrow> lockServiceInternal w name lock a1))"

section \<open>Polling\<close>

text \<open>\<open>fmt.Sprintf("%d", n)\<close>\<close>

fun show_nat :: "nat \<Rightarrow> string" where
  "show_nat n = (if n < 10 then [''0123456789'' ! n]
                 else show_nat (n div 10) @ [''0123456789'' ! (n mod 10)])"

declare show_nat.simps [simp del]

definition show_int :: "int \<Rightarrow> string" where
  "show_int i = (if i < 0 then ''-'' @ show_nat (nat (- i)) else show_nat (nat i))"

text \<open>
  The second half of \<open>pollServiceInternal\<close> (from \<open>svc.Online = true\<close> on): \<open>status0\<close> is
  the decoded body, \<open>svc\<close> the service's record so far, \<open>a\<close> the state.
\<close>

definition interpret_status ::
  "string \<Rightarrow> (string \<times> json) list \<Rightarrow> ServiceStatus \<Rightarrow> Arbiter \<Rightarrow> Arbiter" where
  "interpret_status name status0 svc a =
     (let svc0 = svc\<lparr>Online := True, Error := ''''\<rparr>;
          status = (case map_of status0 ''data'' of Some (JObj data) \<Rightarrow> data | _ \<Rightarrow> status0);
          svc1 = (case map_of status ''locked'' of
                    Some (JBool locked) \<Rightarrow> svc0\<lparr>Locked := locked\<rparr> | _ \<Rightarrow> svc0);
          svc2 = (case map_of status ''state'' of
                    Some (JStr state) \<Rightarrow> svc1\<lparr>Active := (state = ''playing'')\<rparr> | _ \<Rightarrow> svc1);
          svc3 = (case map_of status ''active'' of
                    Some (JBool active) \<Rightarrow> svc2\<lparr>Active := active\<rparr> | _ \<Rightarrow> svc2);
          a1 = store a name svc3
      in if Active svc3 \<and> \<not> Locked svc3 then a1\<lparr>activeService := name\<rparr>
         else if activeService a1 = name \<and> \<not> Active svc3 then a1\<lparr>activeService := ''''\<rparr>
         else a1)"

definition status_request :: "string \<Rightarrow> string \<Rightarrow> http_request" where
  "status_request name baseURL =
     \<lparr>req_method = GET,
      req_url = (if name = ''usboveri2s'' then baseURL @ ''/api/v1/player/status''
                 else baseURL @ ''/api/v1/status''),
      req_body = None, req_content_type = None\<rparr>"

text \<open>\<open>pollServiceInternal\<close>: \<open>None\<close> is the nil-pointer panic on an unregistered name.\<close>

definition pollServiceInternal :: "world \<Rightarrow> string \<Rightarrow> Arbiter \<Rightarrow> Arbiter option" where
  "pollServiceInternal w name a =
     (case services a name of
        None \<Rightarrow> None
      | Some svc0 \<Rightarrow>
          (let svc = svc0\<lparr>LastCheck := now w (length (trace a))\<rparr>
           in case send w (status_request name (BaseURL svc)) a of
                (RequestErr e, a1) \<Rightarrow>
                  Some (store a1 name (svc\<lparr>Online := False, Active := False, Error := e\<rparr>))
              | (TransportErr e, a1) \<Rightarrow>
                  Some (store a1 name (svc\<lparr>Online := False, Active := False, Error := e\<rparr>))
              | (Response code body rerr, a1) \<Rightarrow>
                  if code \<noteq> 200
                  then Some (store a1 name (svc\<lparr>Online := False, Active := False,
                                Error := ''status code: '' @ show_int code\<rparr>))
                  else (case rerr of
                          Some e \<Rightarrow> Some (store a1 name (svc\<lparr>Online := False, Error := e\<rparr>))
                        | None \<Rightarrow>
                            (case json_unmarshal w body of
                               Inl e \<Rightarrow> Some (store a1 name (svc\<lparr>Online := False, Error := e\<rparr>))
                             | Inr status0 \<Rightarrow> Some (interpret_status name status0 svc a1)))))"

section \<open>Invariant enforcement\<close>

definition online_unlocked :: "Arbiter \<Rightarrow> string \<Rightarrow> bool" where
  "online_unlocked a name =
     (case services a name of None \<Rightarrow> False | Some svc \<Rightarrow> Online svc \<and> \<not> Locked svc)"

text \<open>The first loop of \<open>enforceSingleUnlocked\<close>: the names appended to \<open>unlockedServices\<close>.\<close>

definition collect_unlocked :: "Arbiter \<Rightarrow> string list \<Rightarrow> string list" where
  "collect_unlocked a order = filter (online_unlocked a) order"

text \<open>The search for the active service, with its \<open>break\<close>.\<close>

fun find_active :: "string \<Rightarrow> string list \<Rightarrow> string \<Rightarrow> string" where
  "find_active act [] keepUnlocked = keepUnlocked"
| "find_active act (name # rest) keepUnlocked =
     (if name = act then name else find_active act rest keepUnlocked)"

text \<open>The search for the lowest priority number; \<open>None\<close> is a nil-pointer panic.\<close>

fun find_lowest :: "Arbiter \<Rightarrow> string list \<Rightarrow> int \<Rightarrow> string \<Rightarrow> string option" where
  "find_lowest a [] lowestPriority keepUnlocked = Some keepUnlocked"
| "find_lowest a (name # rest) lowestPriority keepUnlocked =
     (case services a name of
        None \<Rightarrow> None
      | Some svc \<Rightarrow>
          if Priority svc < lowestPriority then find_lowest a rest (Priority svc) name
          else find_lowest a rest lowestPriority keepUnlocked)"

definition choose_keep :: "Arbiter \<Rightarrow> string list \<Rightarrow> string option" where
  "choose_keep a unlockedServices =
     (case unlockedServices of
        [] \<Rightarrow> None
      | keepUnlocked # _ \<Rightarrow>
          if activeService a \<noteq> ''''
          then Some (find_active (activeService a) unlockedServices keepUnlocked)
          else (case services a keepUnlocked of
                  None \<Rightarrow> None
                | Some svc \<Rightarrow> find_lowest a unlockedServices (Priority svc) keepUnlocked))"

fun lock_others :: "world \<Rightarrow> string \<Rightarrow> string list \<Rightarrow> Arbiter \<Rightarrow> Arbiter option" where
  "lock_others w keepUnlocked [] a = Some a"
| "lock_others w keepUnlocked (name # rest) a =
     (if name \<noteq> keepUnlocked
      then (case lockServiceInternal w name True a of
              None \<Rightarrow> None
            | Some (err, a') \<Rightarrow> lock_others w keepUnlocked rest a')
      else lock_others w keepUnlocked rest a)"

definition enforceSingleUnlocked :: "world \<Rightarrow> string list \<Rightarrow> Arbiter \<Rightarrow> Arbiter option" where
  "enforceSingleUnlocked w order a =
     (let unlockedServices = collect_unlocked a order
      in if length unlockedServices > 1
         then (case choose_keep a unlockedServices of
                 None \<Rightarrow> None
               | Some keepUnlocked \<Rightarrow> lock_others w keepUnlocked unlockedServices a)
         else Some a)"

fun pollAllServices_loop :: "world \<Rightarrow> string list \<Rightarrow> Arbiter \<Rightarrow> Arbiter option" where
  "pollAllServices_loop w [] a = Some a"
| "pollAllServices_loop w (name # rest) a =
     (case services a name of
        None \<Rightarrow> pollAllServices_loop w rest a
      | Some _ \<Rightarrow>
          (case pollServiceInternal w name a of
             None \<Rightarrow> None
           | Some a' \<Rightarrow> pollAllServices_loop w rest a'))"

text \<open>
  \<open>pollAllServices\<close>: \<open>order\<close> is the order of the polling loop, \<open>order'\<close> the order of the
  loop inside \<open>enforceSingleUnlocked\<close>.
\<close>

definition pollAllServices :: "world \<Rightarrow> string list \<Rightarrow> string list \<Rightarrow> Arbiter \<Rightarrow> Arbiter option" where
  "pollAllServices w order order' a =
     (case pollAllServices_loop w order a of
        None \<Rightarrow> None
      | Some a1 \<Rightarrow> enforceSingleUnlocked w order' a1)"

section \<open>Vocabulary of the statements\<close>

text \<open>The request \<open>lockServiceInternal\<close> sends for a service, and the error it gets back.\<close>

definition lock_request :: "string \<Rightarrow> string \<Rightarrow> bool \<Rightarrow> http_request" where
  "lock_request name baseURL lock =
     (if name = ''usboveri2s'' then usboveri2s_lock_request baseURL lock
      else usbaudio_lock_request baseURL lock)"

definition lock_result :: "world \<Rightarrow> Arbiter \<Rightarrow> string \<Rightarrow> ServiceStatus \<Rightarrow> bool \<Rightarrow> string option" where
  "lock_result w a name svc lock =
     lock_reply_error (do_request w (length (trace a)) (lock_request name (BaseURL svc) lock))"

definition locked_svc :: "ServiceStatus \<Rightarrow> bool \<Rightarrow> string option \<Rightarrow> ServiceStatus" where
  "locked_svc svc lock err =
     (case err of Some e \<Rightarrow> svc\<lparr>Error := e\<rparr> | None \<Rightarrow> svc\<lparr>Locked := lock, Error := ''''\<rparr>)"

definition after_lock :: "world \<Rightarrow> Arbiter \<Rightarrow> string \<Rightarrow> ServiceStatus \<Rightarrow> bool \<Rightarrow> Arbiter" where
  "after_lock w a name svc lock =
     a\<lparr>services := (services a)(name \<mapsto> locked_svc svc lock (lock_result w a name svc lock)),
       activeService := (if lock_result w a name svc lock = None \<and> lock \<and> activeService a = name
                         then '''' else activeService a),
       trace := trace a @ [lock_request name (BaseURL svc) lock]\<rparr>"

text \<open>What a state says about a name; an unregistered name is neither online nor locked.\<close>

definition online :: "Arbiter \<Rightarrow> string \<Rightarrow> bool" where
  "online a name = (case services a name of None \<Rightarrow> False | Some svc \<Rightarrow> Online svc)"

definition locked :: "Arbiter \<Rightarrow> string \<Rightarrow> bool" where
  "locked a name = (case services a name of None \<Rightarrow> False | Some svc \<Rightarrow> Locked svc)"

definition unlocked :: "Arbiter \<Rightarrow> string \<Rightarrow> bool" where
  "unlocked a name = (case services a name of None \<Rightarrow> False | Some svc \<Rightarrow> \<not> Locked svc)"

text \<open>The lock (or unlock) requests for a list of names, one for each registered name.\<close>

fun lock_requests :: "Arbiter \<Rightarrow> bool \<Rightarrow> string list \<Rightarrow> http_request list" where
  "lock_requests a lock [] = []"
| "lock_requests a lock (name # rest) =
     (case services a name of
        None \<Rightarrow> lock_requests a lock rest
      | Some svc \<Rightarrow> lock_request name (BaseURL svc) lock # lock_requests a lock rest)"

text \<open>
  The errors that requests \<open>rs\<close> get when they are sent one after the other from position
  \<open>i\<close> of the trace on, and the last error among them.
\<close>

fun reply_errors :: "world \<Rightarrow> nat \<Rightarrow> http_request list \<Rightarrow> string option list" where
  "reply_errors w i [] = []"
| "reply_errors w i (r # rs) = lock_reply_error (do_request w i r) # reply_errors w (Suc i) rs"

definition last_error :: "string option list \<Rightarrow> string option" where
  "last_error es = (case filter (\<lambda>e. e \<noteq> None) es of [] \<Rightarrow> None | e # rest \<Rightarrow> last (e # rest))"

text \<open>
  Every lock or unlock request among \<open>rs\<close>, sent from position \<open>i\<close> on, succeeds (status
  polls, the GET requests, are not looked at).
\<close>

fun calls_ok :: "world \<Rightarrow> nat \<Rightarrow> http_request list \<Rightarrow> bool" where
  "calls_ok w i [] = True"
| "calls_ok w i (r # rs) =
     ((req_method r = GET \<or> lock_reply_error (do_request w i r) = None) \<and> calls_ok w (Suc i) rs)"

text \<open>Every lock or unlock call made between state \<open>a\<close> and the later state \<open>a'\<close> succeeded.\<close>

definition lock_calls_succeed :: "world \<Rightarrow> Arbiter \<Rightarrow> Arbiter \<Rightarrow> bool" where
  "lock_calls_succeed w a a' = calls_ok w (length (trace a)) (drop (length (trace a)) (trace a'))"

text \<open>The same for all the calls but the last one, and the error of the last one.\<close>

definition best_effort_calls_succeed :: "world \<Rightarrow> Arbiter \<Rightarrow> Arbiter \<Rightarrow> bool" where
  "best_effort_calls_succeed w a a' =
     calls_ok w (length (trace a)) (butlast (drop (length (trace a)) (trace a')))"

definition final_call_error :: "world \<Rightarrow> Arbiter \<Rightarrow> string option" where
  "final_call_error w a' =
     lock_reply_error (do_request w (length (trace a') - 1) (last (trace a')))"

text \<open>Locking a list of services one after the other, whatever each call returns.\<close>

fun lock_all :: "world \<Rightarrow> string list \<Rightarrow> Arbiter \<Rightarrow> Arbiter option" where
  "lock_all w [] a = Some a"
| "lock_all w (name # rest) a =
     (case lockServiceInternal w name True a of
        None \<Rightarrow> None
      | Some (err, a') \<Rightarrow> lock_all w rest a')"

text \<open>The payload the status rules read: the \<open>data\<close> field when it is an object.\<close>

definition unwrap_data :: "(string \<times> json) list \<Rightarrow> (string \<times> json) list" where
  "unwrap_data status0 =
     (case map_of status0 ''data'' of Some (JObj data) \<Rightarrow> data | _ \<Rightarrow> status0)"

section \<open>Concrete configurations\<close>

text \<open>\<open>config.Default\<close>, and a third service that uses the generic lock API.\<close>

definition Default_Services :: "Service list" where
  "Default_Services =
     [\<lparr>cfg_Name = ''usboveri2s'', cfg_DisplayName = ''USB Media Player'',
       cfg_BaseURL = ''http://localhost:8090'', cfg_Priority = 1\<rparr>,
      \<lparr>cfg_Name = ''usbaudio'', cfg_DisplayName = ''USB Audio Bridge'',
       cfg_BaseURL = ''http://localhost:8092'', cfg_Priority = 2\<rparr>]"

definition player :: "bool \<Rightarrow> bool \<Rightarrow> bool \<Rightarrow> ServiceStatus" where
  "player on lk act =
     \<lparr>Name = ''usboveri2s'', DisplayName = ''USB Media Player'', BaseURL = ''http://localhost:8090'',
      Online = on, Locked = lk, Active = act, Priority = 1, LastCheck = '''', Error = ''''\<rparr>"

definition bridge :: "bool \<Rightarrow> bool \<Rightarrow> bool \<Rightarrow> ServiceStatus" where
  "bridge on lk act =
     \<lparr>Name = ''usbaudio'', DisplayName = ''USB Audio Bridge'', BaseURL = ''http://localhost:8092'',
      Online = on, Locked = lk, Active = act, Priority = 2, LastCheck = '''', Error = ''''\<rparr>"

definition tuner :: "bool \<Rightarrow> bool \<Rightarrow> bool \<Rightarrow> ServiceStatus" where
  "tuner on lk act =
     \<lparr>Name = ''tuner'', DisplayName = ''Tuner'', BaseURL = ''http://localhost:8094'',
      Online = on, Locked = lk, Active = act, Priority = 3, LastCheck = '''', Error = ''''\<rparr>"

definition two_services :: "ServiceStatus \<Rightarrow> ServiceStatus \<Rightarrow> string \<Rightarrow> Arbiter" where
  "two_services p b act =
     \<lparr>services = [''usboveri2s'' \<mapsto> p, ''usbaudio'' \<mapsto> b], activeService = act, trace = []\<rparr>"

definition three_services ::
  "ServiceStatus \<Rightarrow> ServiceStatus \<Rightarrow> ServiceStatus \<Rightarrow> string \<Rightarrow> Arbiter" where
  "three_services p b t act =
     \<lparr>services = [''usboveri2s'' \<mapsto> p, ''usbaudio'' \<mapsto> b, ''tuner'' \<mapsto> t],
      activeService = act, trace = []\<rparr>"

text \<open>Status bodies of the devices, and a decoder that knows exactly these bodies.\<close>

definition status_body :: "bool \<Rightarrow> string" where
  "status_body lk =
     (if lk then ''{'' @ [CHR 0x22] @ ''locked'' @ [CHR 0x22] @ '':true}''
      else ''{'' @ [CHR 0x22] @ ''locked'' @ [CHR 0x22] @ '':false}'')"

definition decode :: "string \<Rightarrow> string + (string \<times> json) list" where
  "decode body =
     (if body = status_body True then Inr [(''locked'', JBool True)]
      else if body = status_body False then Inr [(''locked'', JBool False)]
      else Inl ''invalid character'')"

text \<open>Every device reports that it is unlocked and accepts every lock call.\<close>

definition world_ok :: world where
  "world_ok =
     \<lparr>do_request = (\<lambda>i r. if req_method r = GET then Response 200 (status_body False) None
                           else Response 200 [] None),
      json_unmarshal = decode, now = (\<lambda>i. ''2024-01-01T00:00:00Z'')\<rparr>"

text \<open>Every device reports that it is unlocked and no lock call gets through.\<close>

definition world_locks_fail :: world where
  "world_locks_fail =
     \<lparr>do_request = (\<lambda>i r. if req_method r = GET then Response 200 (status_body False) None
                           else TransportErr ''connection refused''),
      json_unmarshal = decode, now = (\<lambda>i. ''2024-01-01T00:00:00Z'')\<rparr>"


text \<open>The player refuses to be unlocked (its unlock call is the DELETE).\<close>

definition world_delete_refused :: world where
  "world_delete_refused =
     \<lparr>do_request = (\<lambda>i r. if req_method r = DELETE then Response 500 ''busy'' None
                           else Response 200 [] None),
      json_unmarshal = decode, now = (\<lambda>i. ''2024-01-01T00:00:00Z'')\<rparr>"

text \<open>A device answers its status poll with something that is not JSON.\<close>

definition world_bad_json :: world where
  "world_bad_json =
     \<lparr>do_request = (\<lambda>i r. Response 200 ''<html>'' None),
      json_unmarshal = decode, now = (\<lambda>i. ''2024-01-01T00:00:00Z'')\<rparr>"

text \<open>
  The tuner cannot be reached; the player and the bridge report that they are unlocked and
  accept every lock call.
\<close>

definition world_tuner_down :: world where
  "world_tuner_down =
     \<lparr>do_request = (\<lambda>i r. if req_url r = ''http://localhost:8094/api/v1/status''
                           then TransportErr ''connection refused''
                           else if req_method r = GET then Response 200 (status_body False) None
                           else Response 200 [] None),
      json_unmarshal = decode, now = (\<lambda>i. ''2024-01-01T00:00:00Z'')\<rparr>"

text \<open>The player answers its status poll in its wrapped format, playing and unlocked.\<close>

definition playing_body :: string where
  "playing_body =
     ''{'' @ [CHR 0x22] @ ''success'' @ [CHR 0x22] @ '':true,'' @ [CHR 0x22] @ ''data'' @ [CHR 0x22]
     @ '':{'' @ [CHR 0x22] @ ''state'' @ [CHR 0x22] @ '':'' @ [CHR 0x22] @ ''playing'' @ [CHR 0x22]
     @ '','' @ [CHR 0x22] @ ''locked'' @ [CHR 0x22] @ '':false}}''"

definition world_playing :: world where
  "world_playing =
     \<lparr>do_request = (\<lambda>i r. Response 200 playing_body None),
      json_unmarshal = (\<lambda>body. if body = playing_body
                               then Inr [(''success'', JBool True),
                                         (''data'', JObj [(''state'', JStr ''playing''),
                                                          (''locked'', JBool False)])]
                               else Inl ''invalid character''),
      now = (\<lambda>i. ''2024-01-01T00:00:00Z'')\<rparr>"

text \<open>The player answers its status poll, unwrapped, that it has stopped.\<close>

definition stopped_body :: string where
  "stopped_body =
     ''{'' @ [CHR 0x22] @ ''state'' @ [CHR 0x22] @ '':'' @ [CHR 0x22] @ ''stopped'' @ [CHR 0x22] @ ''}''"

definition world_stopped :: world where
  "world_stopped =
     \<lparr>do_request = (\<lambda>i r. Response 200 stopped_body None),
      json_unmarshal = (\<lambda>body. if body = stopped_body then Inr [(''state'', JStr ''stopped'')]
                               else Inl ''invalid character''),
      now = (\<lambda>i. ''2024-01-01T00:00:00Z'')\<rparr>"

section \<open>Basic facts about the internal lock routine\<close>

lemma locked_svc_simps [simp]:
  "BaseURL (locked_svc svc lock err) = BaseURL svc"
  "Online (locked_svc svc lock err) = Online svc"
  "Priority (locked_svc svc lock err) = Priority svc"
  "Active (locked_svc svc lock err) = Active svc"
  "Locked (locked_svc svc lock err) = (if err = None then lock else Locked svc)"
  by (simp_all add: locked_svc_def split: option.splits)

lemma lockServiceInternal_eq:
  assumes "services a name = Some svc"
  shows "lockServiceInternal w name lock a =
     Some (lock_result w a name svc lock, after_lock w a name svc lock)"
  using assms
  by (auto simp: lockServiceInternal_def lockUSBOverI2S_def lockUSBAudio_def send_def store_def
      lock_request_def lock_result_def locked_svc_def after_lock_def Let_def split: option.splits)

lemma lockServiceInternal_None: "services a name = None \<Longrightarrow> lockServiceInternal w name lock a = None"
  by (simp add: lockServiceInternal_def)

lemma after_lock_simps [simp]:
  "trace (after_lock w a name svc lock) = trace a @ [lock_request name (BaseURL svc) lock]"
  "activeService (after_lock w a name svc lock) =
     (if lock_result w a name svc lock = None \<and> lock \<and> activeService a = name
      then '''' else activeService a)"
  "services (after_lock w a name svc lock) n =
     (if n = name then Some (locked_svc svc lock (lock_result w a name svc lock)) else services a n)"
  by (simp_all add: after_lock_def)

lemma online_after_lock [simp]:
  "services a name = Some svc \<Longrightarrow> online (after_lock w a name svc lock) = online a"
  by (rule ext) (simp add: online_def)

lemma lock_requests_after_lock [simp]:
  "services a name = Some svc \<Longrightarrow>
   lock_requests (after_lock w a name svc lock) l ns = lock_requests a l ns"
  by (induction ns) (simp_all split: option.splits)

lemma lock_request_not_GET [simp]: "req_method (lock_request name baseURL lock) \<noteq> GET"
  by (simp add: lock_request_def usboveri2s_lock_request_def usbaudio_lock_request_def)

lemma calls_ok_append:
  "calls_ok w i (rs @ rs') = (calls_ok w i rs \<and> calls_ok w (i + length rs) rs')"
  by (induction rs arbitrary: i) auto

lemma last_error_Nil [simp]: "last_error [] = None"
  by (simp add: last_error_def)

lemma last_error_Cons:
  "last_error (x # es) = (case last_error es of None \<Rightarrow> x | Some e \<Rightarrow> Some e)"
proof -
  define fs where "fs = filter (\<lambda>e. e \<noteq> None) es"
  have mem: "\<And>e. e \<in> set fs \<Longrightarrow> e \<noteq> None" by (simp add: fs_def)
  show ?thesis
  proof (cases fs)
    case Nil
    then show ?thesis
      using fs_def by (cases x) (simp_all add: last_error_def)
  next
    case (Cons f fs')
    then have "last fs \<in> set fs" by simp
    then obtain e where e: "last fs = Some e" using mem by fastforce
    have "last_error es = Some e"
      using Cons e fs_def by (simp add: last_error_def split: list.splits)
    moreover have "last_error (x # es) = Some e"
      using Cons e fs_def by (cases x) (simp_all add: last_error_def split: list.splits)
    ultimately show ?thesis by simp
  qed
qed

section \<open>Locking a list of services\<close>

lemma lock_all_Cons:
  "services a n = Some svc \<Longrightarrow> lock_all w (n # ns) a = lock_all w ns (after_lock w a n svc True)"
  by (simp add: lockServiceInternal_eq)

lemma lock_all_Cons_None: "services a n = None \<Longrightarrow> lock_all w (n # ns) a = None"
  by (simp add: lockServiceInternal_None)

declare lock_all.simps(2) [simp del]

lemma lock_all_ConsE:
  assumes "lock_all w (n # ns) a = Some a'"
  obtains svc where "services a n = Some svc" "lock_all w ns (after_lock w a n svc True) = Some a'"
proof (cases "services a n")
  case None
  with assms show ?thesis by (simp add: lock_all_Cons_None)
next
  case (Some svc)
  with assms that show ?thesis by (simp add: lock_all_Cons)
qed

lemma lock_all_total:
  "\<forall>n\<in>set ns. services a n \<noteq> None \<Longrightarrow> \<exists>a'. lock_all w ns a = Some a'"
proof (induction ns arbitrary: a)
  case Nil
  show ?case by simp
next
  case (Cons n ns)
  then obtain svc where svc: "services a n = Some svc" by auto
  have "\<forall>m\<in>set ns. services (after_lock w a n svc True) m \<noteq> None"
    using Cons.prems by simp
  from Cons.IH[OF this] show ?case by (simp add: lock_all_Cons[OF svc])
qed

lemma lock_all_trace:
  "lock_all w ns a = Some a' \<Longrightarrow> trace a' = trace a @ lock_requests a True ns"
proof (induction ns arbitrary: a)
  case Nil
  then show ?case by simp
next
  case (Cons n ns)
  from Cons.prems obtain svc where svc: "services a n = Some svc"
    and rest: "lock_all w ns (after_lock w a n svc True) = Some a'"
    by (rule lock_all_ConsE)
  from Cons.IH[OF rest] svc show ?case by simp
qed

lemma lock_all_other:
  "lock_all w ns a = Some a' \<Longrightarrow> m \<notin> set ns \<Longrightarrow> services a' m = services a m"
proof (induction ns arbitrary: a)
  case Nil
  then show ?case by simp
next
  case (Cons n ns)
  from Cons.prems(1) obtain svc where svc: "services a n = Some svc"
    and rest: "lock_all w ns (after_lock w a n svc True) = Some a'"
    by (rule lock_all_ConsE)
  from Cons.IH[OF rest] Cons.prems(2) show ?case by simp
qed

lemma lock_all_online: "lock_all w ns a = Some a' \<Longrightarrow> online a' = online a"
proof (induction ns arbitrary: a)
  case Nil
  then show ?case by simp
next
  case (Cons n ns)
  from Cons.prems obtain svc where svc: "services a n = Some svc"
    and rest: "lock_all w ns (after_lock w a n svc True) = Some a'"
    by (rule lock_all_ConsE)
  from Cons.IH[OF rest] svc show ?case by simp
qed

lemma lock_all_dom: "lock_all w ns a = Some a' \<Longrightarrow> dom (services a') = dom (services a)"
proof (induction ns arbitrary: a)
  case Nil
  then show ?case by simp
next
  case (Cons n ns)
  from Cons.prems obtain svc where svc: "services a n = Some svc"
    and rest: "lock_all w ns (after_lock w a n svc True) = Some a'"
    by (rule lock_all_ConsE)
  have "dom (services (after_lock w a n svc True)) = dom (services a)"
    using svc by (auto simp: dom_def)
  with Cons.IH[OF rest] show ?case by (rule trans)
qed

lemma lock_all_locked_mono: "lock_all w ns a = Some a' \<Longrightarrow> locked a m \<Longrightarrow> locked a' m"
proof (induction ns arbitrary: a)
  case Nil
  then show ?case by simp
next
  case (Cons n ns)
  from Cons.prems(1) obtain svc where svc: "services a n = Some svc"
    and rest: "lock_all w ns (after_lock w a n svc True) = Some a'"
    by (rule lock_all_ConsE)
  have "locked (after_lock w a n svc True) m"
    using Cons.prems(2) svc by (auto simp: locked_def)
  from Cons.IH[OF rest this] show ?case .
qed

lemma lock_all_active:
  "lock_all w ns a = Some a' \<Longrightarrow>
   activeService a' = activeService a \<or> (activeService a' = '''' \<and> activeService a \<in> set ns)"
proof (induction ns arbitrary: a)
  case Nil
  then show ?case by simp
next
  case (Cons n ns)
  from Cons.prems obtain svc where svc: "services a n = Some svc"
    and rest: "lock_all w ns (after_lock w a n svc True) = Some a'"
    by (rule lock_all_ConsE)
  from Cons.IH[OF rest] show ?case by (auto split: if_splits)
qed

lemma calls_ok_lock_Cons:
  "services a n = Some svc \<Longrightarrow>
   calls_ok w (length (trace a)) (lock_requests a True (n # ns)) =
     (lock_result w a n svc True = None \<and>
      calls_ok w (length (trace (after_lock w a n svc True)))
        (lock_requests (after_lock w a n svc True) True ns))"
  by (simp add: lock_result_def)

lemma lock_all_ok_locked:
  "lock_all w ns a = Some a' \<Longrightarrow> calls_ok w (length (trace a)) (lock_requests a True ns) \<Longrightarrow>
   m \<in> set ns \<Longrightarrow> locked a' m"
proof (induction ns arbitrary: a)
  case Nil
  then show ?case by simp
next
  case (Cons n ns)
  from Cons.prems(1) obtain svc where svc: "services a n = Some svc"
    and rest: "lock_all w ns (after_lock w a n svc True) = Some a'"
    by (rule lock_all_ConsE)
  let ?a1 = "after_lock w a n svc True"
  from Cons.prems(2) have ok: "lock_result w a n svc True = None"
    and oks: "calls_ok w (length (trace ?a1)) (lock_requests ?a1 True ns)"
    by (simp_all only: calls_ok_lock_Cons[OF svc])
  show ?case
  proof (cases "m = n")
    case True
    have "locked ?a1 n" using ok by (simp add: locked_def)
    from lock_all_locked_mono[OF rest this] True show ?thesis by simp
  next
    case False
    with Cons.prems(3) have "m \<in> set ns" by simp
    from Cons.IH[OF rest oks this] show ?thesis .
  qed
qed

lemma lock_all_ok_active:
  "lock_all w ns a = Some a' \<Longrightarrow> calls_ok w (length (trace a)) (lock_requests a True ns) \<Longrightarrow>
   activeService a \<in> set ns \<Longrightarrow> activeService a' = ''''"
proof (induction ns arbitrary: a)
  case Nil
  then show ?case by simp
next
  case (Cons n ns)
  from Cons.prems(1) obtain svc where svc: "services a n = Some svc"
    and rest: "lock_all w ns (after_lock w a n svc True) = Some a'"
    by (rule lock_all_ConsE)
  let ?a1 = "after_lock w a n svc True"
  from Cons.prems(2) have ok: "lock_result w a n svc True = None"
    and oks: "calls_ok w (length (trace ?a1)) (lock_requests ?a1 True ns)"
    by (simp_all only: calls_ok_lock_Cons[OF svc])
  show ?case
  proof (cases "activeService a = n")
    case True
    then have "activeService ?a1 = ''''" using ok by simp
    with lock_all_active[OF rest] show ?thesis by auto
  next
    case False
    with Cons.prems(3) have "activeService ?a1 \<in> set ns" by simp
    from Cons.IH[OF rest oks this] show ?thesis .
  qed
qed

lemma online_unlocked_iff: "online_unlocked a n \<longleftrightarrow> online a n \<and> \<not> locked a n"
  by (simp add: online_unlocked_def online_def locked_def split: option.splits)

lemma online_registered: "online a n \<Longrightarrow> services a n \<noteq> None"
  by (auto simp: online_def split: option.splits)

lemma locked_after_lock_other [simp]:
  "m \<noteq> n \<Longrightarrow> locked (after_lock w a n svc l) m = locked a m"
  by (simp add: locked_def)

lemma ActivateService_loop_eq:
  "ActivateService_loop w name ns a = lock_all w (filter (\<lambda>n. n \<noteq> name \<and> online a n) ns) a"
proof (induction ns arbitrary: a)
  case Nil
  show ?case by simp
next
  case (Cons n ns)
  show ?case
  proof (cases "services a n")
    case None
    then show ?thesis using Cons.IH[of a] by (simp add: online_def)
  next
    case (Some svc)
    show ?thesis
    proof (cases "n \<noteq> name \<and> Online svc")
      case True
      then have "online a n" using Some by (simp add: online_def)
      then show ?thesis
        using True Some Cons.IH[of "after_lock w a n svc True"]
        by (simp add: lockServiceInternal_eq lock_all_Cons)
    next
      case False
      then have "\<not> (n \<noteq> name \<and> online a n)" using Some by (simp add: online_def)
      then show ?thesis using False Some Cons.IH[of a] by auto
    qed
  qed
qed

lemma lock_others_eq:
  "lock_others w keep ns a = lock_all w (filter (\<lambda>n. n \<noteq> keep) ns) a"
  by (induction ns arbitrary: a) (simp_all add: lock_all.simps(2) split: option.splits)

lemma LockService_loop_eq:
  "distinct ns \<Longrightarrow>
   LockService_loop w name ns a = lock_all w (filter (\<lambda>n. n \<noteq> name \<and> online_unlocked a n) ns) a"
proof (induction ns arbitrary: a)
  case Nil
  show ?case by simp
next
  case (Cons n ns)
  from Cons.prems have notin: "n \<notin> set ns" and dist: "distinct ns" by simp_all
  show ?case
  proof (cases "services a n")
    case None
    then show ?thesis using Cons.IH[OF dist, of a] by (simp add: online_unlocked_def)
  next
    case (Some svc)
    show ?thesis
    proof (cases "n \<noteq> name \<and> Online svc \<and> \<not> Locked svc")
      case True
      let ?a1 = "after_lock w a n svc True"
      have ou: "online_unlocked a n" using True Some by (simp add: online_unlocked_def)
      have "filter (\<lambda>m. m \<noteq> name \<and> online_unlocked ?a1 m) ns
          = filter (\<lambda>m. m \<noteq> name \<and> online_unlocked a m) ns"
        using notin by (intro filter_cong) (auto simp: online_unlocked_def)
      then show ?thesis
        using True Some ou Cons.IH[OF dist, of ?a1]
        by (simp add: lockServiceInternal_eq lock_all_Cons)
    next
      case False
      then have "\<not> (n \<noteq> name \<and> online_unlocked a n)"
        using Some by (auto simp: online_unlocked_def)
      then show ?thesis using False Some Cons.IH[OF dist, of a] by auto
    qed
  qed
qed

section \<open>Unlocking through \<open>LockService\<close>\<close>

text \<open>
  C4 (as amended). For a registered service, \<open>LockService name false\<close> sends a lock call to every
  other service that is online and unlocked, then the unlock call to the target, in this
  order and nothing else. When all these calls succeed, the target is unlocked and no other
  service is both online and unlocked; an offline service keeps the lock flag it had.
\<close>

theorem LockService_unlock_locks_others_first:
  assumes reg: "services a name = Some svc" and ord: "iteration_order a order"
  shows "\<exists>err a'. LockService w order name False a = Some (err, a')
     \<and> set (filter (\<lambda>n. n \<noteq> name \<and> online_unlocked a n) order)
         = {n. n \<noteq> name \<and> online_unlocked a n}
     \<and> trace a' = trace a
         @ lock_requests a True (filter (\<lambda>n. n \<noteq> name \<and> online_unlocked a n) order)
         @ [lock_request name (BaseURL svc) False]
     \<and> (lock_calls_succeed w a a' \<longrightarrow>
          err = None \<and> unlocked a' name \<and> (\<forall>n. online_unlocked a' n \<longrightarrow> n = name))"
proof -
  let ?ts = "filter (\<lambda>n. n \<noteq> name \<and> online_unlocked a n) order"
  let ?reqs = "lock_requests a True ?ts"
  from ord have dist: "distinct order" and dom: "set order = dom (services a)"
    by (simp_all add: iteration_order_def)
  have ts_set: "set ?ts = {n. n \<noteq> name \<and> online_unlocked a n}"
    using dom by (auto simp: online_unlocked_def split: option.splits)
  have "\<forall>n\<in>set ?ts. services a n \<noteq> None"
    by (auto simp: online_unlocked_def split: option.splits)
  from lock_all_total[OF this] obtain a1 where a1: "lock_all w ?ts a = Some a1" by blast
  have loop: "LockService_loop w name order a = Some a1"
    using a1 by (simp add: LockService_loop_eq[OF dist])
  have "name \<notin> set ?ts" by simp
  from lock_all_other[OF a1 this] reg have reg1: "services a1 name = Some svc" by simp
  let ?err = "lock_result w a1 name svc False"
  let ?a' = "after_lock w a1 name svc False"
  have res: "LockService w order name False a = Some (?err, ?a')"
    using reg loop by (simp add: LockService_def lockServiceInternal_eq[OF reg1])
  have tr1: "trace a1 = trace a @ ?reqs" by (rule lock_all_trace[OF a1])
  have tr: "trace ?a' = trace a @ ?reqs @ [lock_request name (BaseURL svc) False]"
    using tr1 by simp
  have final: "err = None \<and> unlocked ?a' name \<and> (\<forall>n. online_unlocked ?a' n \<longrightarrow> n = name)"
    if ok: "lock_calls_succeed w a ?a'" and err: "err = ?err" for err
  proof -
    from ok have oks: "calls_ok w (length (trace a)) ?reqs"
      and okl: "?err = None"
      by (simp_all add: lock_calls_succeed_def tr calls_ok_append lock_result_def tr1)
    have unl: "unlocked ?a' name" using okl by (simp add: unlocked_def)
    have others: "n = name" if ou: "online_unlocked ?a' n" for n
    proof (rule ccontr)
      assume ne: "n \<noteq> name"
      from ou ne have on1: "online a1 n" and nl1: "\<not> locked a1 n"
        by (simp_all add: online_unlocked_def online_def locked_def split: option.splits)
      from on1 have on: "online a n" by (simp add: lock_all_online[OF a1])
      show False
      proof (cases "locked a n")
        case True
        from lock_all_locked_mono[OF a1 this] nl1 show False by simp
      next
        case False
        with on ne have "n \<in> {n. n \<noteq> name \<and> online_unlocked a n}"
          by (simp add: online_unlocked_iff)
        then have "n \<in> set ?ts" by (simp only: ts_set)
        from lock_all_ok_locked[OF a1 oks this] nl1 show False by simp
      qed
    qed
    from okl unl others err show ?thesis by simp
  qed
  show ?thesis
    using res ts_set tr final by blast
qed

text \<open>The theorem at a concrete input: the player is active and unlocked, the bridge is unlocked on request.\<close>

theorem LockService_unlock_locks_others_first_witness:
  "services (two_services (player True False True) (bridge True True False) ''usboveri2s'') ''usbaudio''
     = Some (bridge True True False)
   \<and> iteration_order (two_services (player True False True) (bridge True True False) ''usboveri2s'')
       [''usbaudio'', ''usboveri2s'']
   \<and> (\<exists>a'. LockService world_ok [''usbaudio'', ''usboveri2s''] ''usbaudio'' False
           (two_services (player True False True) (bridge True True False) ''usboveri2s'') = Some (None, a')
        \<and> trace a' = [lock_request ''usboveri2s'' ''http://localhost:8090'' True,
                       lock_request ''usbaudio'' ''http://localhost:8092'' False]
        \<and> unlocked a' ''usbaudio'' \<and> \<not> online_unlocked a' ''usboveri2s'')"
proof -
  let ?a = "two_services (player True False True) (bridge True True False) ''usboveri2s''"
  let ?order = "[''usbaudio'', ''usboveri2s'']"
  have reg: "services ?a ''usbaudio'' = Some (bridge True True False)"
    by (simp add: two_services_def)
  have ord: "iteration_order ?a ?order"
    by (auto simp: iteration_order_def two_services_def)
  from LockService_unlock_locks_others_first[OF reg ord, of world_ok]
  obtain err a' where res: "LockService world_ok ?order ''usbaudio'' False ?a = Some (err, a')"
    and tr: "trace a' = trace ?a
         @ lock_requests ?a True (filter (\<lambda>n. n \<noteq> ''usbaudio'' \<and> online_unlocked ?a n) ?order)
         @ [lock_request ''usbaudio'' (BaseURL (bridge True True False)) False]"
    and fin: "lock_calls_succeed world_ok ?a a' \<longrightarrow>
          err = None \<and> unlocked a' ''usbaudio'' \<and> (\<forall>n. online_unlocked a' n \<longrightarrow> n = ''usbaudio'')"
    by blast
  have tr': "trace a' = [lock_request ''usboveri2s'' ''http://localhost:8090'' True,
                       lock_request ''usbaudio'' ''http://localhost:8092'' False]"
    using tr by (simp add: two_services_def online_unlocked_def player_def bridge_def)
  have ok: "lock_calls_succeed world_ok ?a a'"
    by (simp add: lock_calls_succeed_def tr' two_services_def world_ok_def lock_request_def
        usboveri2s_lock_request_def usbaudio_lock_request_def)
  with fin have e: "err = None" and u: "unlocked a' ''usbaudio''"
    and o: "\<forall>n. online_unlocked a' n \<longrightarrow> n = ''usbaudio''" by simp_all
  from o have l: "\<not> online_unlocked a' ''usboveri2s''" by auto
  from reg ord res e tr' u l show ?thesis by simp
qed

text \<open>
  Counterexample to C4 as stated: the player is offline with the lock flag false that \<open>New\<close>
  gave it; after a fully successful unlock of the bridge both services have \<open>locked = false\<close>.
\<close>

theorem LockService_unlock_offline_stays_unlocked:
  "\<exists>a'. LockService world_ok [''usboveri2s'', ''usbaudio''] ''usbaudio'' False
           (two_services (player False False False) (bridge True True False) '''') = Some (None, a')
     \<and> lock_calls_succeed world_ok (two_services (player False False False) (bridge True True False) '''') a'
     \<and> unlocked a' ''usbaudio'' \<and> unlocked a' ''usboveri2s''"
  by (simp add: LockService_def two_services_def player_def bridge_def world_ok_def
      lockServiceInternal_def lockUSBAudio_def send_def usbaudio_lock_request_def store_def
      lock_calls_succeed_def unlocked_def)

section \<open>Activation of an offline service\<close>

text \<open>
  C5. For a registered service that is offline, \<open>ActivateService\<close> returns the error
  "service is offline" and the state it returns is the state it was given: no field of any
  service changes, \<open>activeService\<close> does not change, and the trace does not grow, so no
  downstream call is made.
\<close>

theorem ActivateService_offline:
  assumes "services a name = Some svc" and "\<not> Online svc"
  shows "ActivateService w order name a = Some (Some (''service is offline: '' @ name), a)"
  using assms by (simp add: ActivateService_def)

text \<open>The theorem at a concrete input: the bridge right after \<open>New\<close>, when nothing has been polled yet.\<close>

theorem ActivateService_offline_witness:
  "services (New Default_Services) ''usbaudio'' = Some (bridge False False False)
   \<and> \<not> Online (bridge False False False)
   \<and> ActivateService world_ok [''usboveri2s'', ''usbaudio''] ''usbaudio'' (New Default_Services)
       = Some (Some ''service is offline: usbaudio'', New Default_Services)"
proof -
  have reg: "services (New Default_Services) ''usbaudio'' = Some (bridge False False False)"
    by (simp add: New_def Default_Services_def bridge_def)
  have off: "\<not> Online (bridge False False False)"
    by (simp add: bridge_def)
  from ActivateService_offline[OF reg off, of world_ok "[''usboveri2s'', ''usbaudio'']"] reg off
  show ?thesis by simp
qed

section \<open>Deactivation\<close>

lemma DeactivateAll_loop_eq:
  "\<exists>a'. DeactivateAll_loop w ns lastErr a =
      Some (case last_error (reply_errors w (length (trace a))
                      (lock_requests a True (filter (online a) ns))) of
              None \<Rightarrow> lastErr | Some e \<Rightarrow> Some e, a')
    \<and> trace a' = trace a @ lock_requests a True (filter (online a) ns)"
proof (induction ns arbitrary: a lastErr)
  case Nil
  show ?case by simp
next
  case (Cons n ns)
  show ?case
  proof (cases "services a n")
    case None
    then have "\<not> online a n" by (simp add: online_def)
    with None Cons.IH[of lastErr a] show ?thesis by simp
  next
    case (Some svc)
    show ?thesis
    proof (cases "Online svc")
      case False
      then have "\<not> online a n" using Some by (simp add: online_def)
      with Some False Cons.IH[of lastErr a] show ?thesis by simp
    next
      case True
      then have on: "online a n" using Some by (simp add: online_def)
      let ?e = "lock_result w a n svc True"
      let ?a1 = "after_lock w a n svc True"
      let ?l = "case ?e of None \<Rightarrow> lastErr | Some e \<Rightarrow> Some e"
      have step: "DeactivateAll_loop w (n # ns) lastErr a = DeactivateAll_loop w ns ?l ?a1"
        using Some True by (simp add: lockServiceInternal_eq[OF Some] split: option.splits)
      from Cons.IH[of ?l ?a1] obtain a' where
        a': "DeactivateAll_loop w ns ?l ?a1 =
              Some (case last_error (reply_errors w (length (trace ?a1))
                      (lock_requests ?a1 True (filter (online ?a1) ns))) of
                      None \<Rightarrow> ?l | Some e \<Rightarrow> Some e, a')"
        and tr: "trace a' = trace ?a1 @ lock_requests ?a1 True (filter (online ?a1) ns)"
        by blast
      show ?thesis
        using a' tr on Some step
        by (auto simp: last_error_Cons lock_result_def split: option.splits)
    qed
  qed
qed

lemma length_lock_requests:
  "\<forall>n\<in>set ns. services a n \<noteq> None \<Longrightarrow> length (lock_requests a lock ns) = length ns"
  by (induction ns) auto

text \<open>
  C7. \<open>DeactivateAll\<close> always returns. It sends one lock call to each online service, in
  the order of the iteration and whatever the earlier calls returned: the trace grows by exactly
  these requests. It returns the last error among the replies, or no error when every call
  succeeded, and afterwards \<open>GetActiveService\<close> is the empty string.
\<close>

theorem DeactivateAll_locks_every_online_service:
  assumes "iteration_order a order"
  shows "\<exists>lastErr a'. DeactivateAll w order a = Some (lastErr, a')
     \<and> distinct (filter (online a) order)
     \<and> set (filter (online a) order) = {n. online a n}
     \<and> length (lock_requests a True (filter (online a) order)) = length (filter (online a) order)
     \<and> trace a' = trace a @ lock_requests a True (filter (online a) order)
     \<and> lastErr = last_error (reply_errors w (length (trace a))
                    (lock_requests a True (filter (online a) order)))
     \<and> GetActiveService a' = ''''"
proof -
  let ?ts = "filter (online a) order"
  from assms have dist: "distinct order" and dom: "set order = dom (services a)"
    by (simp_all add: iteration_order_def)
  have d: "distinct ?ts" using dist by simp
  have s: "set ?ts = {n. online a n}"
    using dom by (auto simp: online_def split: option.splits)
  have "\<forall>n\<in>set ?ts. services a n \<noteq> None"
    by (auto simp: online_def split: option.splits)
  then have l: "length (lock_requests a True ?ts) = length ?ts"
    by (rule length_lock_requests)
  from DeactivateAll_loop_eq[of w order None a] obtain a1 where
    loop: "DeactivateAll_loop w order None a =
      Some (case last_error (reply_errors w (length (trace a)) (lock_requests a True ?ts)) of
              None \<Rightarrow> None | Some e \<Rightarrow> Some e, a1)"
    and tr: "trace a1 = trace a @ lock_requests a True ?ts"
    by blast
  have res: "DeactivateAll w order a =
      Some (last_error (reply_errors w (length (trace a)) (lock_requests a True ?ts)),
            a1\<lparr>activeService := ''''\<rparr>)"
    using loop by (simp add: DeactivateAll_def split: option.splits)
  show ?thesis
    using res d s l tr by (simp add: GetActiveService_def)
qed

text \<open>
  The theorem at a concrete input: both services are online and no lock call gets through;
  the error of the second call is returned and the active service is cleared all the same.
\<close>

theorem DeactivateAll_locks_every_online_service_witness:
  "iteration_order (two_services (player True False True) (bridge True True False) ''usboveri2s'')
     [''usboveri2s'', ''usbaudio'']
   \<and> (\<exists>a'. DeactivateAll world_locks_fail [''usboveri2s'', ''usbaudio'']
             (two_services (player True False True) (bridge True True False) ''usboveri2s'')
           = Some (Some ''connection refused'', a')
        \<and> trace a' = [lock_request ''usboveri2s'' ''http://localhost:8090'' True,
                       lock_request ''usbaudio'' ''http://localhost:8092'' True]
        \<and> GetActiveService a' = '''')"
proof -
  let ?a = "two_services (player True False True) (bridge True True False) ''usboveri2s''"
  let ?order = "[''usboveri2s'', ''usbaudio'']"
  have ord: "iteration_order ?a ?order"
    by (auto simp: iteration_order_def two_services_def)
  have ts: "filter (online ?a) ?order = ?order"
    by (simp add: online_def two_services_def player_def bridge_def)
  have reqs: "lock_requests ?a True ?order =
      [lock_request ''usboveri2s'' ''http://localhost:8090'' True,
       lock_request ''usbaudio'' ''http://localhost:8092'' True]"
    by (simp add: two_services_def player_def bridge_def)
  have errs: "last_error (reply_errors world_locks_fail (length (trace ?a)) (lock_requests ?a True ?order))
      = Some ''connection refused''"
    unfolding reqs
    by (simp add: last_error_def world_locks_fail_def lock_request_def
        usboveri2s_lock_request_def usbaudio_lock_request_def)
  from DeactivateAll_locks_every_online_service[OF ord, of world_locks_fail]
  obtain lastErr a' where res: "DeactivateAll world_locks_fail ?order ?a = Some (lastErr, a')"
    and tr: "trace a' = trace ?a @ lock_requests ?a True (filter (online ?a) ?order)"
    and le: "lastErr = last_error (reply_errors world_locks_fail (length (trace ?a))
                    (lock_requests ?a True (filter (online ?a) ?order)))"
    and ga: "GetActiveService a' = ''''"
    by blast
  have "trace a' = [lock_request ''usboveri2s'' ''http://localhost:8090'' True,
                       lock_request ''usbaudio'' ''http://localhost:8092'' True]"
    using tr by (simp only: ts reqs) (simp add: two_services_def)
  moreover have "lastErr = Some ''connection refused''"
    using le by (simp only: ts errs)
  ultimately show ?thesis using ord res ga by simp
qed

section \<open>Activation of an online service\<close>

text \<open>
  What \<open>ActivateService\<close> does for a registered online target: \<open>a1\<close> is the state after the
  best-effort locks, and the result is decided by the unlock call made from \<open>a1\<close>.
\<close>

lemma ActivateService_online:
  assumes reg: "services a name = Some target" and on: "Online target"
  shows "\<exists>a1. lock_all w (filter (\<lambda>n. n \<noteq> name \<and> online a n) order) a = Some a1
     \<and> services a1 name = Some target
     \<and> ActivateService w order name a =
         Some (case lock_result w a1 name target False of
                 Some e \<Rightarrow> (Some (''failed to unlock service: '' @ e), after_lock w a1 name target False)
               | None \<Rightarrow> (None, (after_lock w a1 name target False)\<lparr>activeService := name\<rparr>))"
proof -
  let ?ts = "filter (\<lambda>n. n \<noteq> name \<and> online a n) order"
  have "\<forall>n\<in>set ?ts. services a n \<noteq> None"
    by (auto simp: online_def split: option.splits)
  from lock_all_total[OF this] obtain a1 where a1: "lock_all w ?ts a = Some a1" by blast
  have "name \<notin> set ?ts" by simp
  from lock_all_other[OF a1 this] reg have reg1: "services a1 name = Some target" by simp
  have "ActivateService w order name a =
         Some (case lock_result w a1 name target False of
                 Some e \<Rightarrow> (Some (''failed to unlock service: '' @ e), after_lock w a1 name target False)
               | None \<Rightarrow> (None, (after_lock w a1 name target False)\<lparr>activeService := name\<rparr>))"
    using reg on a1
    by (simp add: ActivateService_def ActivateService_loop_eq lockServiceInternal_eq[OF reg1]
        split: option.splits)
  with a1 reg1 show ?thesis by blast
qed




text \<open>
  C10 (as amended). For a registered online target, when every best-effort lock call
  succeeds and the final unlock call fails, \<open>ActivateService\<close> returns an error, every
  other online service is still online and is locked, and \<open>activeService\<close> is unchanged
  unless it named one of these other online services, in which case it is empty.
\<close>

theorem ActivateService_failure_keeps_others_locked:
  assumes reg: "services a name = Some target" and on: "Online target"
    and ord: "iteration_order a order"
  shows "\<exists>err a'. ActivateService w order name a = Some (err, a')
     \<and> trace a' = trace a
         @ lock_requests a True (filter (\<lambda>n. n \<noteq> name \<and> online a n) order)
         @ [lock_request name (BaseURL target) False]
     \<and> (best_effort_calls_succeed w a a' \<and> final_call_error w a' \<noteq> None \<longrightarrow>
          err \<noteq> None
          \<and> activeService a' =
              (if activeService a \<noteq> name \<and> online a (activeService a) then ''''
               else activeService a)
          \<and> (\<forall>n. n \<noteq> name \<and> online a n \<longrightarrow> online a' n \<and> locked a' n))"
proof -
  let ?ts = "filter (\<lambda>n. n \<noteq> name \<and> online a n) order"
  let ?reqs = "lock_requests a True ?ts"
  from ord have dom: "set order = dom (services a)" by (simp add: iteration_order_def)
  have ts_set: "set ?ts = {n. n \<noteq> name \<and> online a n}"
    using dom by (auto simp: online_def split: option.splits)
  from ActivateService_online[OF reg on, of w order] obtain a1 where
    a1: "lock_all w ?ts a = Some a1" and reg1: "services a1 name = Some target"
    and res: "ActivateService w order name a =
         Some (case lock_result w a1 name target False of
                 Some e \<Rightarrow> (Some (''failed to unlock service: '' @ e), after_lock w a1 name target False)
               | None \<Rightarrow> (None, (after_lock w a1 name target False)\<lparr>activeService := name\<rparr>))"
    by blast
  have tr1: "trace a1 = trace a @ ?reqs" by (rule lock_all_trace[OF a1])
  show ?thesis
  proof (cases "lock_result w a1 name target False")
    case None
    let ?a' = "(after_lock w a1 name target False)\<lparr>activeService := name\<rparr>"
    have "final_call_error w ?a' = None"
      using None by (simp add: final_call_error_def lock_result_def)
    then show ?thesis using res None tr1 by simp
  next
    case (Some e)
    let ?a' = "after_lock w a1 name target False"
    have res': "ActivateService w order name a = Some (Some (''failed to unlock service: '' @ e), ?a')"
      using res Some by simp
    have tr: "trace ?a' = trace a @ ?reqs @ [lock_request name (BaseURL target) False]"
      using tr1 by simp
    have concl: "activeService ?a' =
              (if activeService a \<noteq> name \<and> online a (activeService a) then ''''
               else activeService a)
          \<and> (\<forall>n. n \<noteq> name \<and> online a n \<longrightarrow> online ?a' n \<and> locked ?a' n)"
      if be: "best_effort_calls_succeed w a ?a'"
    proof -
      have "drop (length (trace a)) (trace ?a') = ?reqs @ [lock_request name (BaseURL target) False]"
        by (simp only: tr) simp
      with be have oks: "calls_ok w (length (trace a)) ?reqs"
        by (simp only: best_effort_calls_succeed_def butlast_snoc)
      have act: "activeService a1 =
              (if activeService a \<noteq> name \<and> online a (activeService a) then ''''
               else activeService a)"
      proof (cases "activeService a \<noteq> name \<and> online a (activeService a)")
        case True
        then have "activeService a \<in> {n. n \<noteq> name \<and> online a n}" by simp
        then have "activeService a \<in> set ?ts" by (simp only: ts_set)
        from lock_all_ok_active[OF a1 oks this] True show ?thesis by simp
      next
        case False
        then have "activeService a \<notin> {n. n \<noteq> name \<and> online a n}" by simp
        then have "activeService a \<notin> set ?ts" using ts_set by blast
        with lock_all_active[OF a1] False show ?thesis by auto
      qed
      have others: "online ?a' n \<and> locked ?a' n" if n: "n \<noteq> name \<and> online a n" for n
      proof -
        from n have "n \<in> {n. n \<noteq> name \<and> online a n}" by simp
        then have "n \<in> set ?ts" by (simp only: ts_set)
        from lock_all_ok_locked[OF a1 oks this] have "locked a1 n" .
        moreover have "online a1 n" using n by (simp add: lock_all_online[OF a1])
        ultimately show ?thesis using n reg1 by simp
      qed
      from act others show ?thesis using Some by simp
    qed
    show ?thesis using res' tr concl by blast
  qed
qed

text \<open>
  The theorem at a concrete input: the player is active and is activated again, the bridge is
  locked on the way and the player refuses the unlock.
\<close>

theorem ActivateService_failure_keeps_others_locked_witness:
  "services (two_services (player True False True) (bridge True False False) ''usboveri2s'') ''usboveri2s''
     = Some (player True False True)
   \<and> Online (player True False True)
   \<and> iteration_order (two_services (player True False True) (bridge True False False) ''usboveri2s'')
       [''usboveri2s'', ''usbaudio'']
   \<and> (\<exists>err a'. ActivateService world_delete_refused [''usboveri2s'', ''usbaudio''] ''usboveri2s''
             (two_services (player True False True) (bridge True False False) ''usboveri2s'')
           = Some (err, a')
        \<and> best_effort_calls_succeed world_delete_refused
             (two_services (player True False True) (bridge True False False) ''usboveri2s'') a'
        \<and> final_call_error world_delete_refused a' = Some ''lock request failed: busy''
        \<and> err \<noteq> None
        \<and> activeService a' = ''usboveri2s''
        \<and> online a' ''usbaudio'' \<and> locked a' ''usbaudio'')"
proof -
  let ?a = "two_services (player True False True) (bridge True False False) ''usboveri2s''"
  let ?order = "[''usboveri2s'', ''usbaudio'']"
  let ?w = world_delete_refused
  have reg: "services ?a ''usboveri2s'' = Some (player True False True)"
    by (simp add: two_services_def)
  have on: "Online (player True False True)"
    by (simp add: player_def)
  have ord: "iteration_order ?a ?order"
    by (auto simp: iteration_order_def two_services_def)
  from ActivateService_failure_keeps_others_locked[OF reg on ord, of ?w]
  obtain err a' where res: "ActivateService ?w ?order ''usboveri2s'' ?a = Some (err, a')"
    and tr: "trace a' = trace ?a
         @ lock_requests ?a True (filter (\<lambda>n. n \<noteq> ''usboveri2s'' \<and> online ?a n) ?order)
         @ [lock_request ''usboveri2s'' (BaseURL (player True False True)) False]"
    and fin: "best_effort_calls_succeed ?w ?a a' \<and> final_call_error ?w a' \<noteq> None \<longrightarrow>
          err \<noteq> None
          \<and> activeService a' =
              (if activeService ?a \<noteq> ''usboveri2s'' \<and> online ?a (activeService ?a) then ''''
               else activeService ?a)
          \<and> (\<forall>n. n \<noteq> ''usboveri2s'' \<and> online ?a n \<longrightarrow> online a' n \<and> locked a' n)"
    by blast
  have tr': "trace a' = [lock_request ''usbaudio'' ''http://localhost:8092'' True,
                       lock_request ''usboveri2s'' ''http://localhost:8090'' False]"
    using tr by (simp add: two_services_def online_def player_def bridge_def)
  have be: "best_effort_calls_succeed ?w ?a a'"
    by (simp add: best_effort_calls_succeed_def tr' two_services_def world_delete_refused_def
        lock_request_def usbaudio_lock_request_def)
  have fe: "final_call_error ?w a' = Some ''lock request failed: busy''"
    by (simp add: final_call_error_def tr' world_delete_refused_def lock_request_def
        usboveri2s_lock_request_def)
  have act: "activeService ?a = ''usboveri2s''" by (simp add: two_services_def)
  have onb: "online ?a ''usbaudio''" by (simp add: online_def two_services_def bridge_def)
  from fin be fe have e: "err \<noteq> None"
    and a: "activeService a' =
              (if activeService ?a \<noteq> ''usboveri2s'' \<and> online ?a (activeService ?a) then ''''
               else activeService ?a)"
    and o: "\<forall>n. n \<noteq> ''usboveri2s'' \<and> online ?a n \<longrightarrow> online a' n \<and> locked a' n"
    by simp_all
  from a act have a': "activeService a' = ''usboveri2s''" by simp
  from o onb have l: "online a' ''usbaudio'' \<and> locked a' ''usbaudio''" by auto
  from reg on ord res be fe e a' l show ?thesis by blast
qed

text \<open>
  Counterexample to C10 as stated: the bridge is the active service and the player is
  activated. The lock of the bridge succeeds, the player refuses the unlock, and
  \<open>activeService\<close> has changed from the bridge to the empty string.
\<close>

theorem ActivateService_failure_changes_active:
  "\<exists>a'. ActivateService world_delete_refused [''usboveri2s'', ''usbaudio''] ''usboveri2s''
           (two_services (player True True False) (bridge True False True) ''usbaudio'')
         = Some (Some ''failed to unlock service: lock request failed: busy'', a')
     \<and> best_effort_calls_succeed world_delete_refused
           (two_services (player True True False) (bridge True False True) ''usbaudio'') a'
     \<and> final_call_error world_delete_refused a' = Some ''lock request failed: busy''
     \<and> activeService (two_services (player True True False) (bridge True False True) ''usbaudio'')
         = ''usbaudio''
     \<and> activeService a' = ''''
     \<and> locked a' ''usbaudio''"
  by (simp add: ActivateService_def two_services_def player_def bridge_def world_delete_refused_def
      lockServiceInternal_def lockUSBAudio_def lockUSBOverI2S_def send_def
      usbaudio_lock_request_def usboveri2s_lock_request_def store_def final_call_error_def
      best_effort_calls_succeed_def locked_def)

section \<open>Invariant enforcement\<close>

lemma collect_unlocked_registered:
  "n \<in> set (collect_unlocked a order) \<Longrightarrow> services a n \<noteq> None"
  by (auto simp: collect_unlocked_def online_unlocked_def split: option.splits)

lemma find_active_cases:
  "find_active act ns k = (if act \<in> set ns then act else k)"
  by (induction ns) auto

lemma find_lowest_total:
  "\<forall>n\<in>set ns. services a n \<noteq> None \<Longrightarrow> \<exists>k. find_lowest a ns p k0 = Some k \<and> (k = k0 \<or> k \<in> set ns)"
proof (induction ns arbitrary: p k0)
  case Nil
  show ?case by simp
next
  case (Cons n ns)
  then obtain svc where svc: "services a n = Some svc" by auto
  from Cons.prems have reg: "\<forall>m\<in>set ns. services a m \<noteq> None" by simp
  show ?case
    using Cons.IH[OF reg, of "Priority svc" n] Cons.IH[OF reg, of p k0] svc
    by (auto split: if_splits)
qed

lemma choose_keep_total:
  assumes "ns \<noteq> []" and "\<forall>n\<in>set ns. services a n \<noteq> None"
  shows "\<exists>k. choose_keep a ns = Some k \<and> k \<in> set ns
     \<and> (activeService a \<noteq> '''' \<longrightarrow> k = (if activeService a \<in> set ns then activeService a else hd ns))"
proof (cases ns)
  case Nil
  with assms show ?thesis by simp
next
  case (Cons u0 rest)
  show ?thesis
  proof (cases "activeService a = ''''")
    case False
    then show ?thesis using Cons by (auto simp: choose_keep_def find_active_cases)
  next
    case True
    from assms(2) Cons obtain svc where svc: "services a u0 = Some svc" by auto
    from find_lowest_total[OF assms(2), of "Priority svc" u0]
    show ?thesis using True Cons svc by (auto simp: choose_keep_def)
  qed
qed

lemma enforceSingleUnlocked_eq:
  "\<exists>k. enforceSingleUnlocked w order a =
      (if length (collect_unlocked a order) > 1
       then lock_all w (filter (\<lambda>n. n \<noteq> k) (collect_unlocked a order)) a
       else Some a)
    \<and> (length (collect_unlocked a order) > 1 \<longrightarrow>
         choose_keep a (collect_unlocked a order) = Some k \<and> k \<in> set (collect_unlocked a order))
    \<and> (activeService a = '''' \<or> activeService a = k \<or> activeService a \<notin> set (collect_unlocked a order))"
proof (cases "length (collect_unlocked a order) > 1")
  case False
  then show ?thesis by (auto simp: enforceSingleUnlocked_def intro: exI[of _ "activeService a"])
next
  case True
  let ?us = "collect_unlocked a order"
  from True have ne: "?us \<noteq> []" by auto
  have reg: "\<forall>n\<in>set ?us. services a n \<noteq> None"
    using collect_unlocked_registered by blast
  from choose_keep_total[OF ne reg] obtain k where k: "choose_keep a ?us = Some k"
    and mem: "k \<in> set ?us"
    and act: "activeService a \<noteq> '''' \<longrightarrow> k = (if activeService a \<in> set ?us then activeService a else hd ?us)"
    by blast
  have "enforceSingleUnlocked w order a = lock_all w (filter (\<lambda>n. n \<noteq> k) ?us) a"
    using True k by (simp add: enforceSingleUnlocked_def lock_others_eq)
  moreover have "activeService a = '''' \<or> activeService a = k \<or> activeService a \<notin> set ?us"
    using act by (auto split: if_splits)
  ultimately show ?thesis using True k mem by auto
qed

text \<open>
  C9. \<open>enforceSingleUnlocked\<close> always returns, and \<open>activeService\<close> is the same after it as
  before it. When an active service is designated, its record is untouched as well:
  enforcement never makes it the target of a lock call.
\<close>

theorem enforceSingleUnlocked_keeps_activeService:
  "\<exists>a'. enforceSingleUnlocked w order a = Some a'
     \<and> activeService a' = activeService a
     \<and> (activeService a = '''' \<or> services a' (activeService a) = services a (activeService a))"
proof -
  let ?us = "collect_unlocked a order"
  from enforceSingleUnlocked_eq[of w order a] obtain k where
    eq: "enforceSingleUnlocked w order a =
      (if length ?us > 1 then lock_all w (filter (\<lambda>n. n \<noteq> k) ?us) a else Some a)"
    and act: "activeService a = '''' \<or> activeService a = k \<or> activeService a \<notin> set ?us"
    by blast
  show ?thesis
  proof (cases "length ?us > 1")
    case False
    with eq show ?thesis by simp
  next
    case True
    let ?ts = "filter (\<lambda>n. n \<noteq> k) ?us"
    have "\<forall>n\<in>set ?ts. services a n \<noteq> None"
      using collect_unlocked_registered by auto
    from lock_all_total[OF this] obtain a' where a': "lock_all w ?ts a = Some a'" by blast
    have res: "enforceSingleUnlocked w order a = Some a'" using eq True a' by simp
    from act have cases: "activeService a = '''' \<or> activeService a \<notin> set ?ts" by auto
    have same: "activeService a' = activeService a"
      using lock_all_active[OF a'] cases by auto
    have "activeService a = '''' \<or> services a' (activeService a) = services a (activeService a)"
      using cases lock_all_other[OF a'] by blast
    with res same show ?thesis by simp
  qed
qed

text \<open>
  The theorem at a concrete input: both services are online and unlocked and the player is the
  active service; the bridge is locked and the player stays the active service.
\<close>

theorem enforceSingleUnlocked_keeps_activeService_witness:
  "\<exists>a'. enforceSingleUnlocked world_ok [''usbaudio'', ''usboveri2s'']
           (two_services (player True False True) (bridge True False False) ''usboveri2s'') = Some a'
     \<and> activeService a' = ''usboveri2s''
     \<and> services a' ''usboveri2s'' = Some (player True False True)"
proof -
  let ?a = "two_services (player True False True) (bridge True False False) ''usboveri2s''"
  have act: "activeService ?a = ''usboveri2s''" and svc: "services ?a ''usboveri2s'' = Some (player True False True)"
    by (simp_all add: two_services_def)
  from enforceSingleUnlocked_keeps_activeService[of world_ok "[''usbaudio'', ''usboveri2s'']" ?a]
  show ?thesis unfolding act svc by simp
qed

section \<open>The poll cycle\<close>

lemma interpret_status_frame:
  "trace (interpret_status name status0 svc a) = trace a"
  "dom (services (interpret_status name status0 svc a)) = insert name (dom (services a))"
  by (simp_all add: interpret_status_def Let_def store_def)

lemma pollServiceInternal_frame:
  assumes "services a name = Some svc"
  shows "\<exists>a'. pollServiceInternal w name a = Some a'
     \<and> dom (services a') = dom (services a)
     \<and> trace a' = trace a @ [status_request name (BaseURL svc)]"
proof -
  have d: "insert name (dom (services a)) = dom (services a)" using assms by auto
  show ?thesis
    using assms d
    by (auto simp: pollServiceInternal_def send_def store_def interpret_status_frame Let_def
        split: http_reply.splits option.splits sum.splits)
qed

lemma pollAllServices_loop_frame:
  "\<exists>a1 gs. pollAllServices_loop w ns a = Some a1
     \<and> dom (services a1) = dom (services a)
     \<and> trace a1 = trace a @ gs \<and> (\<forall>r\<in>set gs. req_method r = GET)"
proof (induction ns arbitrary: a)
  case Nil
  show ?case by simp
next
  case (Cons n ns)
  show ?case
  proof (cases "services a n")
    case None
    with Cons.IH[of a] show ?thesis by simp
  next
    case (Some svc)
    from pollServiceInternal_frame[OF Some, of w] obtain a' where
      p: "pollServiceInternal w n a = Some a'" and d: "dom (services a') = dom (services a)"
      and t: "trace a' = trace a @ [status_request n (BaseURL svc)]" by blast
    from Cons.IH[of a'] obtain a1 gs where
      l: "pollAllServices_loop w ns a' = Some a1" and d1: "dom (services a1) = dom (services a')"
      and t1: "trace a1 = trace a' @ gs" and g: "\<forall>r\<in>set gs. req_method r = GET" by blast
    have "pollAllServices_loop w (n # ns) a = Some a1" using Some p l by simp
    moreover have "dom (services a1) = dom (services a)" using d d1 by simp
    moreover have "trace a1 = trace a @ (status_request n (BaseURL svc) # gs)" using t t1 by simp
    moreover have "\<forall>r\<in>set (status_request n (BaseURL svc) # gs). req_method r = GET"
      using g by (simp add: status_request_def)
    ultimately show ?thesis by blast
  qed
qed

lemma calls_ok_GET: "\<forall>r\<in>set gs. req_method r = GET \<Longrightarrow> calls_ok w i gs"
  by (induction gs arbitrary: i) auto

lemma enforceSingleUnlocked_single:
  assumes dom: "set order = dom (services a)"
  shows "\<exists>a' ls k. enforceSingleUnlocked w order a = Some a'
     \<and> trace a' = trace a @ ls
     \<and> (calls_ok w (length (trace a)) ls \<longrightarrow> (\<forall>n. online_unlocked a' n \<longrightarrow> n = k))"
proof -
  let ?us = "collect_unlocked a order"
  have us: "n \<in> set ?us" if "online_unlocked a n" for n
    using that dom by (auto simp: collect_unlocked_def online_unlocked_def split: option.splits)
  from enforceSingleUnlocked_eq[of w order a] obtain k where
    eq: "enforceSingleUnlocked w order a =
      (if length ?us > 1 then lock_all w (filter (\<lambda>n. n \<noteq> k) ?us) a else Some a)"
    by blast
  show ?thesis
  proof (cases "length ?us > 1")
    case False
    have "n = hd ?us" if "online_unlocked a n" for n
    proof -
      from us[OF that] have "n \<in> set ?us" .
      with False show ?thesis by (cases ?us) auto
    qed
    then have "calls_ok w (length (trace a)) [] \<longrightarrow> (\<forall>n. online_unlocked a n \<longrightarrow> n = hd ?us)"
      by blast
    moreover have "enforceSingleUnlocked w order a = Some a" using eq False by simp
    moreover have "trace a = trace a @ []" by simp
    ultimately show ?thesis by blast
  next
    case True
    let ?ts = "filter (\<lambda>n. n \<noteq> k) ?us"
    let ?ls = "lock_requests a True ?ts"
    have "\<forall>n\<in>set ?ts. services a n \<noteq> None"
      using collect_unlocked_registered by auto
    from lock_all_total[OF this] obtain a' where a': "lock_all w ?ts a = Some a'" by blast
    have res: "enforceSingleUnlocked w order a = Some a'" using eq True a' by simp
    have tr: "trace a' = trace a @ ?ls" by (rule lock_all_trace[OF a'])
    have "n = k" if ok: "calls_ok w (length (trace a)) ?ls" and ou: "online_unlocked a' n" for n
    proof (rule ccontr)
      assume ne: "n \<noteq> k"
      from ou have on: "online a n" and nl: "\<not> locked a' n"
        by (simp_all add: online_unlocked_iff lock_all_online[OF a'])
      show False
      proof (cases "locked a n")
        case True
        from lock_all_locked_mono[OF a' this] nl show False by simp
      next
        case False
        with on have "online_unlocked a n" by (simp add: online_unlocked_iff)
        from us[OF this] ne have "n \<in> set ?ts" by simp
        from lock_all_ok_locked[OF a' ok this] nl show False by simp
      qed
    qed
    then have "calls_ok w (length (trace a)) ?ls \<longrightarrow> (\<forall>n. online_unlocked a' n \<longrightarrow> n = k)"
      by blast
    with res tr show ?thesis by blast
  qed
qed

text \<open>
  C1 (as amended). A poll cycle always runs to completion. When every lock call that its
  enforcement step makes succeeds, at most one service is both online and unlocked
  afterwards.
\<close>

theorem pollAllServices_single_unlocked:
  assumes ord: "iteration_order a order'"
  shows "\<exists>a'. pollAllServices w order order' a = Some a'
     \<and> (lock_calls_succeed w a a' \<longrightarrow>
          finite {n. online_unlocked a' n} \<and> card {n. online_unlocked a' n} \<le> 1)"
proof -
  from pollAllServices_loop_frame[of w order a] obtain a1 gs where
    l: "pollAllServices_loop w order a = Some a1" and d1: "dom (services a1) = dom (services a)"
    and t1: "trace a1 = trace a @ gs" and g: "\<forall>r\<in>set gs. req_method r = GET" by blast
  from ord d1 have dom: "set order' = dom (services a1)" by (simp add: iteration_order_def)
  from enforceSingleUnlocked_single[OF dom, of w] obtain a' ls k where
    e: "enforceSingleUnlocked w order' a1 = Some a'" and t: "trace a' = trace a1 @ ls"
    and s: "calls_ok w (length (trace a1)) ls \<longrightarrow> (\<forall>n. online_unlocked a' n \<longrightarrow> n = k)"
    by blast
  have res: "pollAllServices w order order' a = Some a'"
    using l e by (simp add: pollAllServices_def)
  have "finite {n. online_unlocked a' n} \<and> card {n. online_unlocked a' n} \<le> 1"
    if ok: "lock_calls_succeed w a a'"
  proof -
    have "drop (length (trace a)) (trace a') = gs @ ls" using t t1 by simp
    with ok have "calls_ok w (length (trace a)) (gs @ ls)"
      by (simp only: lock_calls_succeed_def)
    then have "calls_ok w (length (trace a1)) ls"
      by (simp add: calls_ok_append t1)
    with s have sub: "{n. online_unlocked a' n} \<subseteq> {k}" by blast
    then have fin: "finite {n. online_unlocked a' n}" by (rule finite_subset) simp
    from card_mono[OF _ sub] have "card {n. online_unlocked a' n} \<le> 1" by simp
    with fin show ?thesis by simp
  qed
  with res show ?thesis by blast
qed

lemma pollAllServices_dom:
  assumes "pollAllServices w order order' a = Some a'"
  shows "dom (services a') = dom (services a)"
proof -
  from pollAllServices_loop_frame[of w order a] obtain a1 where
    l: "pollAllServices_loop w order a = Some a1" and d1: "dom (services a1) = dom (services a)"
    by blast
  from assms l have e: "enforceSingleUnlocked w order' a1 = Some a'"
    by (simp add: pollAllServices_def)
  from enforceSingleUnlocked_eq[of w order' a1] obtain k where
    eq: "enforceSingleUnlocked w order' a1 =
      (if length (collect_unlocked a1 order') > 1
       then lock_all w (filter (\<lambda>n. n \<noteq> k) (collect_unlocked a1 order')) a1 else Some a1)"
    by blast
  have "dom (services a') = dom (services a1)"
    using e eq lock_all_dom by (auto split: if_splits)
  with d1 show ?thesis by simp
qed

lemma calls_ok_world_ok: "calls_ok world_ok i rs"
  by (induction rs arbitrary: i) (auto simp: world_ok_def)

text \<open>
  The theorem at a concrete input: the first poll cycle after \<open>New\<close>, with both devices
  reporting that they are unlocked; the bridge is locked by the enforcement step.
\<close>

theorem pollAllServices_single_unlocked_witness:
  "iteration_order (New Default_Services) [''usboveri2s'', ''usbaudio'']
   \<and> (\<exists>a'. pollAllServices world_ok [''usboveri2s'', ''usbaudio''] [''usboveri2s'', ''usbaudio'']
             (New Default_Services) = Some a'
        \<and> lock_calls_succeed world_ok (New Default_Services) a'
        \<and> finite {n. online_unlocked a' n} \<and> card {n. online_unlocked a' n} \<le> 1)"
proof -
  let ?order = "[''usboveri2s'', ''usbaudio'']"
  have ord: "iteration_order (New Default_Services) ?order"
    by (auto simp: iteration_order_def New_def Default_Services_def)
  from pollAllServices_single_unlocked[OF ord, of world_ok ?order]
  obtain a' where res: "pollAllServices world_ok ?order ?order (New Default_Services) = Some a'"
    and imp: "lock_calls_succeed world_ok (New Default_Services) a' \<longrightarrow>
          finite {n. online_unlocked a' n} \<and> card {n. online_unlocked a' n} \<le> 1"
    by blast
  have ok: "lock_calls_succeed world_ok (New Default_Services) a'"
    by (simp add: lock_calls_succeed_def calls_ok_world_ok)
  with imp ord res show ?thesis by blast
qed

lemma online_unlocked_pair:
  assumes "online_unlocked a' x" "online_unlocked a' y" "dom (services a') = {x, y}"
  shows "{n. online_unlocked a' n} = {x, y}"
proof
  show "{n. online_unlocked a' n} \<subseteq> {x, y}"
    using assms(3) by (auto simp: online_unlocked_def split: option.splits)
  show "{x, y} \<subseteq> {n. online_unlocked a' n}"
    using assms(1,2) by simp
qed

lemma dom_New_Default: "dom (services (New Default_Services)) = {''usboveri2s'', ''usbaudio''}"
  by (auto simp: New_def Default_Services_def)

text \<open>
  Counterexample to C1 as stated: the first poll cycle after \<open>New\<close>, with both devices
  reporting that they are unlocked and no lock call getting through. The cycle runs to
  completion and both services are online and unlocked afterwards.
\<close>

theorem pollAllServices_two_unlocked:
  "\<exists>a'. pollAllServices world_locks_fail [''usboveri2s'', ''usbaudio''] [''usboveri2s'', ''usbaudio'']
           (New Default_Services) = Some a'
     \<and> online_unlocked a' ''usboveri2s'' \<and> online_unlocked a' ''usbaudio''
     \<and> card {n. online_unlocked a' n} = 2"
proof -
  let ?r = "pollAllServices world_locks_fail [''usboveri2s'', ''usbaudio''] [''usboveri2s'', ''usbaudio'']
           (New Default_Services)"
  have ev: "map_option (\<lambda>a'. (online_unlocked a' ''usboveri2s'', online_unlocked a' ''usbaudio'')) ?r
      = Some (True, True)"
    by (simp add: pollAllServices_def pollServiceInternal_def New_def Default_Services_def
        world_locks_fail_def send_def status_request_def store_def decode_def status_body_def
        interpret_status_def Let_def enforceSingleUnlocked_def collect_unlocked_def
        online_unlocked_def choose_keep_def lockServiceInternal_def lockUSBAudio_def
        lockUSBOverI2S_def usboveri2s_lock_request_def usbaudio_lock_request_def)
  then obtain a' where res: "?r = Some a'" and p: "online_unlocked a' ''usboveri2s''"
    and b: "online_unlocked a' ''usbaudio''"
    by (elim map_option_eq_Some[THEN iffD1, THEN exE]) simp
  have "dom (services a') = dom (services (New Default_Services))"
    by (rule pollAllServices_dom[OF res])
  then have d: "dom (services a') = {''usboveri2s'', ''usbaudio''}"
    by (simp only: dom_New_Default)
  have "card {n. online_unlocked a' n} = card {''usboveri2s'', ''usbaudio''}"
    by (simp only: online_unlocked_pair[OF p b d])
  also have "\<dots> = 2" by simp
  finally have "card {n. online_unlocked a' n} = 2" .
  with res p b show ?thesis by blast
qed

section \<open>Which service enforcement keeps unlocked\<close>

text \<open>The active service is kept when it is among the unlocked services.\<close>

lemma choose_keep_active:
  "activeService a \<noteq> '''' \<Longrightarrow> activeService a \<in> set us \<Longrightarrow>
   choose_keep a us = Some (activeService a)"
  by (cases us) (auto simp: choose_keep_def find_active_cases)

text \<open>With no active service, a service of lowest priority number is kept.\<close>

lemma find_lowest_min:
  assumes "\<forall>n\<in>set ns. services a n \<noteq> None" and "services a k0 = Some s0" and "Priority s0 = p"
  shows "\<exists>k svc. find_lowest a ns p k0 = Some k \<and> services a k = Some svc \<and> Priority svc \<le> p
     \<and> (k = k0 \<or> k \<in> set ns)
     \<and> (\<forall>n\<in>set ns. \<forall>s. services a n = Some s \<longrightarrow> Priority svc \<le> Priority s)"
  using assms
proof (induction ns arbitrary: p k0 s0)
  case Nil
  then show ?case by simp
next
  case (Cons n ns)
  from Cons.prems(1) obtain sn where sn: "services a n = Some sn" by auto
  from Cons.prems(1) have reg: "\<forall>m\<in>set ns. services a m \<noteq> None" by simp
  show ?case
  proof (cases "Priority sn < p")
    case True
    from Cons.IH[OF reg sn refl] obtain k svc where
      "find_lowest a ns (Priority sn) n = Some k" "services a k = Some svc"
      "Priority svc \<le> Priority sn" "k = n \<or> k \<in> set ns"
      "\<forall>m\<in>set ns. \<forall>s. services a m = Some s \<longrightarrow> Priority svc \<le> Priority s"
      by blast
    with True sn show ?thesis by auto
  next
    case False
    from Cons.IH[OF reg Cons.prems(2,3)] obtain k svc where
      "find_lowest a ns p k0 = Some k" "services a k = Some svc"
      "Priority svc \<le> p" "k = k0 \<or> k \<in> set ns"
      "\<forall>m\<in>set ns. \<forall>s. services a m = Some s \<longrightarrow> Priority svc \<le> Priority s"
      by blast
    with False sn show ?thesis by auto
  qed
qed

lemma choose_keep_lowest:
  assumes "activeService a = ''''" and "us \<noteq> []" and "\<forall>n\<in>set us. services a n \<noteq> None"
  shows "\<exists>k svc. choose_keep a us = Some k \<and> k \<in> set us \<and> services a k = Some svc
     \<and> (\<forall>n\<in>set us. \<forall>s. services a n = Some s \<longrightarrow> Priority svc \<le> Priority s)"
proof (cases us)
  case Nil
  with assms(2) show ?thesis by simp
next
  case (Cons u0 rest)
  with assms(3) obtain s0 where s0: "services a u0 = Some s0" by auto
  from find_lowest_min[OF assms(3) s0 refl] obtain k svc where
    "find_lowest a us (Priority s0) u0 = Some k" "services a k = Some svc"
    "k = u0 \<or> k \<in> set us"
    "\<forall>n\<in>set us. \<forall>s. services a n = Some s \<longrightarrow> Priority svc \<le> Priority s"
    by blast
  with assms(1) Cons s0 show ?thesis by (auto simp: choose_keep_def)
qed

text \<open>
  With an active service that is not among the unlocked services, the first unlocked service
  of the iteration is kept, whatever its priority.
\<close>

lemma choose_keep_first:
  "activeService a \<noteq> '''' \<Longrightarrow> activeService a \<notin> set (u0 # rest) \<Longrightarrow>
   choose_keep a (u0 # rest) = Some u0"
  by (simp add: choose_keep_def find_active_cases)

text \<open>
  C2. The claim fails on the code. The tuner is the designated active service and is offline;
  the bridge (priority 2) and the player (priority 1) are online and unlocked, and the
  iteration visits the bridge first. Enforcement keeps the bridge unlocked and sends its
  only lock call to the player, the member with the lowest priority number.
\<close>

theorem enforceSingleUnlocked_keeps_first_of_iteration:
  "map_option (\<lambda>a'. (trace a', online_unlocked a' ''usbaudio'', locked a' ''usboveri2s''))
     (enforceSingleUnlocked world_ok [''usbaudio'', ''usboveri2s'', ''tuner'']
        (three_services (player True False False) (bridge True False False)
           (tuner False False False) ''tuner''))
   = Some ([lock_request ''usboveri2s'' ''http://localhost:8090'' True], True, True)"
  by (simp add: enforceSingleUnlocked_def collect_unlocked_def online_unlocked_def choose_keep_def
      three_services_def player_def bridge_def tuner_def world_ok_def locked_def
      lockServiceInternal_def lockUSBOverI2S_def lockUSBAudio_def send_def store_def
      lock_request_def)

text \<open>
  The state above arises in one poll cycle: the tuner had been activated, then it cannot be
  reached any more while the two other devices report that they are unlocked.
\<close>

lemma pollAllServices_keeps_first_of_iteration:
  "map_option (\<lambda>a'. (activeService a', online a' ''tuner'', online_unlocked a' ''usbaudio'',
                      online a' ''usboveri2s'', locked a' ''usboveri2s''))
     (pollAllServices world_tuner_down [''usboveri2s'', ''usbaudio'', ''tuner'']
        [''usbaudio'', ''usboveri2s'', ''tuner'']
        (three_services (player True True False) (bridge True True False)
           (tuner True False True) ''tuner''))
   = Some (''tuner'', False, True, True, True)"
  by (simp add: pollAllServices_def pollServiceInternal_def world_tuner_down_def send_def
      status_request_def store_def decode_def status_body_def interpret_status_def Let_def
      enforceSingleUnlocked_def collect_unlocked_def online_unlocked_def online_def locked_def
      choose_keep_def lockServiceInternal_def lockUSBAudio_def lockUSBOverI2S_def
      usboveri2s_lock_request_def usbaudio_lock_request_def
      three_services_def player_def bridge_def tuner_def)

section \<open>Polling one service\<close>

text \<open>The service cannot be reached, or answers with a status other than 200.\<close>

lemma pollServiceInternal_unreachable:
  assumes "services a name = Some svc"
    and "do_request w (length (trace a)) (status_request name (BaseURL svc)) = r"
    and "r = RequestErr e \<and> msg = e \<or> r = TransportErr e \<and> msg = e
         \<or> r = Response code body rerr \<and> code \<noteq> 200 \<and> msg = ''status code: '' @ show_int code"
  shows "\<exists>a' svc'. pollServiceInternal w name a = Some a' \<and> services a' name = Some svc'
     \<and> \<not> Online svc' \<and> \<not> Active svc' \<and> Error svc' = msg \<and> Locked svc' = Locked svc
     \<and> activeService a' = activeService a"
  using assms by (auto simp: pollServiceInternal_def send_def store_def)

text \<open>The service answers 200 and the body cannot be read or is not JSON.\<close>

lemma pollServiceInternal_malformed:
  assumes "services a name = Some svc"
    and "do_request w (length (trace a)) (status_request name (BaseURL svc)) = Response 200 body rerr"
    and "rerr = Some e \<or> rerr = None \<and> json_unmarshal w body = Inl e"
  shows "\<exists>a' svc'. pollServiceInternal w name a = Some a' \<and> services a' name = Some svc'
     \<and> \<not> Online svc' \<and> Active svc' = Active svc \<and> Error svc' = e \<and> Locked svc' = Locked svc
     \<and> activeService a' = activeService a"
  using assms by (auto simp: pollServiceInternal_def send_def store_def)

text \<open>
  C3. The claim fails on the code. The bridge is online, unlocked, active and the designated
  active service, and it answers its status poll with a body that is not JSON. The poll
  sets \<open>online = false\<close> and records the error, but \<open>active\<close> stays \<open>true\<close> (and
  \<open>activeService\<close> stays the bridge): only the branches for a network error and for a
  status other than 200 reset \<open>active\<close>.
\<close>

theorem pollServiceInternal_invalid_json_keeps_active:
  "map_option (\<lambda>a'. (map_option (\<lambda>s. (Online s, Active s, Locked s, Error s)) (services a' ''usbaudio''),
                      activeService a'))
     (pollServiceInternal world_bad_json ''usbaudio''
        (two_services (player True True False) (bridge True False True) ''usbaudio''))
   = Some (Some (False, True, False, ''invalid character''), ''usbaudio'')"
  by (simp add: pollServiceInternal_def world_bad_json_def send_def store_def decode_def
      status_body_def two_services_def bridge_def)

text \<open>The three field rules of the status payload, one at a time.\<close>

lemma locked_rule:
  "Locked (case x of Some (JBool b) \<Rightarrow> s\<lparr>Locked := b\<rparr> | _ \<Rightarrow> s)
     = (case x of Some (JBool b) \<Rightarrow> b | _ \<Rightarrow> Locked s)"
  "Active (case x of Some (JBool b) \<Rightarrow> s\<lparr>Locked := b\<rparr> | _ \<Rightarrow> s) = Active s"
  "Online (case x of Some (JBool b) \<Rightarrow> s\<lparr>Locked := b\<rparr> | _ \<Rightarrow> s) = Online s"
  "Error (case x of Some (JBool b) \<Rightarrow> s\<lparr>Locked := b\<rparr> | _ \<Rightarrow> s) = Error s"
  by (simp_all split: option.splits json.splits)

lemma state_rule:
  "Active (case x of Some (JStr st) \<Rightarrow> s\<lparr>Active := (st = ''playing'')\<rparr> | _ \<Rightarrow> s)
     = (case x of Some (JStr st) \<Rightarrow> st = ''playing'' | _ \<Rightarrow> Active s)"
  "Locked (case x of Some (JStr st) \<Rightarrow> s\<lparr>Active := (st = ''playing'')\<rparr> | _ \<Rightarrow> s) = Locked s"
  "Online (case x of Some (JStr st) \<Rightarrow> s\<lparr>Active := (st = ''playing'')\<rparr> | _ \<Rightarrow> s) = Online s"
  "Error (case x of Some (JStr st) \<Rightarrow> s\<lparr>Active := (st = ''playing'')\<rparr> | _ \<Rightarrow> s) = Error s"
  by (simp_all split: option.splits json.splits)

lemma active_rule:
  "Active (case x of Some (JBool b) \<Rightarrow> s\<lparr>Active := b\<rparr> | _ \<Rightarrow> s)
     = (case x of Some (JBool b) \<Rightarrow> b | _ \<Rightarrow> Active s)"
  "Locked (case x of Some (JBool b) \<Rightarrow> s\<lparr>Active := b\<rparr> | _ \<Rightarrow> s) = Locked s"
  "Online (case x of Some (JBool b) \<Rightarrow> s\<lparr>Active := b\<rparr> | _ \<Rightarrow> s) = Online s"
  "Error (case x of Some (JBool b) \<Rightarrow> s\<lparr>Active := b\<rparr> | _ \<Rightarrow> s) = Error s"
  by (simp_all split: option.splits json.splits)

lemma interpret_status_service:
  "\<exists>svc'. services (interpret_status name status0 svc a) name = Some svc'
     \<and> Online svc' \<and> Error svc' = ''''
     \<and> Locked svc' = (case map_of (unwrap_data status0) ''locked'' of
                         Some (JBool b) \<Rightarrow> b | _ \<Rightarrow> Locked svc)
     \<and> Active svc' = (case map_of (unwrap_data status0) ''active'' of
                         Some (JBool b) \<Rightarrow> b
                       | _ \<Rightarrow> (case map_of (unwrap_data status0) ''state'' of
                                 Some (JStr st) \<Rightarrow> st = ''playing'' | _ \<Rightarrow> Active svc))"
  unfolding interpret_status_def unwrap_data_def[symmetric] Let_def store_def
  by (simp add: locked_rule state_rule active_rule cong: option.case_cong json.case_cong)

lemma pollServiceInternal_success:
  assumes "services a name = Some svc"
    and "do_request w (length (trace a)) (status_request name (BaseURL svc)) = Response 200 body None"
    and "json_unmarshal w body = Inr status0"
  shows "pollServiceInternal w name a =
     Some (interpret_status name status0 (svc\<lparr>LastCheck := now w (length (trace a))\<rparr>)
             (a\<lparr>trace := trace a @ [status_request name (BaseURL svc)]\<rparr>))"
  using assms by (simp add: pollServiceInternal_def send_def)

lemma interpret_status_activeService:
  "\<exists>svc'. services (interpret_status name status0 svc a) name = Some svc'
     \<and> activeService (interpret_status name status0 svc a) =
         (if Active svc' \<and> \<not> Locked svc' then name
          else if activeService a = name \<and> \<not> Active svc' then '''' else activeService a)"
  unfolding interpret_status_def Let_def store_def
  by simp

text \<open>
  C8 (as amended). For a registered service whose status poll returns 200 with a body that
  decodes to the object \<open>status0\<close>, let \<open>status\<close> be \<open>status0\<close> unwrapped. The poll returns
  and the service is online with no error. A boolean \<open>locked\<close> field becomes the lock state;
  with no boolean \<open>locked\<close> field the lock state is unchanged. A boolean \<open>active\<close> field
  becomes the active state whatever \<open>state\<close> says. With no boolean \<open>active\<close> field, a
  string \<open>state\<close> field decides: the service is active when the state is "playing" and
  not active for every other string. With neither a boolean \<open>active\<close> field nor a string
  \<open>state\<close> field the active state is unchanged. The designated active service follows:
  it becomes this service when it is active and unlocked, and is cleared when it was this
  service and the service is not active any more.
\<close>

theorem pollServiceInternal_status_rules:
  assumes reg: "services a name = Some svc"
    and reply: "do_request w (length (trace a)) (status_request name (BaseURL svc))
                  = Response 200 body None"
    and dec: "json_unmarshal w body = Inr status0"
    and st: "status = unwrap_data status0"
  shows "\<exists>a' svc'. pollServiceInternal w name a = Some a' \<and> services a' name = Some svc'
     \<and> Online svc' \<and> Error svc' = ''''
     \<and> (\<forall>b. map_of status ''locked'' = Some (JBool b) \<longrightarrow> Locked svc' = b)
     \<and> ((\<forall>b. map_of status ''locked'' \<noteq> Some (JBool b)) \<longrightarrow> Locked svc' = Locked svc)
     \<and> (\<forall>b. map_of status ''active'' = Some (JBool b) \<longrightarrow> Active svc' = b)
     \<and> (\<forall>s. map_of status ''state'' = Some (JStr s)
              \<and> (\<forall>b. map_of status ''active'' \<noteq> Some (JBool b))
            \<longrightarrow> Active svc' = (s = ''playing''))
     \<and> ((\<forall>b. map_of status ''active'' \<noteq> Some (JBool b))
          \<and> (\<forall>s. map_of status ''state'' \<noteq> Some (JStr s)) \<longrightarrow> Active svc' = Active svc)
     \<and> activeService a' =
         (if Active svc' \<and> \<not> Locked svc' then name
          else if activeService a = name \<and> \<not> Active svc' then '''' else activeService a)"
proof -
  let ?svc = "svc\<lparr>LastCheck := now w (length (trace a))\<rparr>"
  let ?a1 = "a\<lparr>trace := trace a @ [status_request name (BaseURL svc)]\<rparr>"
  let ?a' = "interpret_status name status0 ?svc ?a1"
  have res: "pollServiceInternal w name a = Some ?a'"
    by (rule pollServiceInternal_success[OF reg reply dec])
  from interpret_status_service[of name status0 ?svc ?a1] obtain svc' where
    s: "services ?a' name = Some svc'" and on: "Online svc'" and er: "Error svc' = ''''"
    and lk: "Locked svc' = (case map_of status ''locked'' of
                         Some (JBool b) \<Rightarrow> b | _ \<Rightarrow> Locked ?svc)"
    and ac: "Active svc' = (case map_of status ''active'' of
                         Some (JBool b) \<Rightarrow> b
                       | _ \<Rightarrow> (case map_of status ''state'' of
                                 Some (JStr st) \<Rightarrow> st = ''playing'' | _ \<Rightarrow> Active ?svc))"
    unfolding st by blast
  from interpret_status_activeService[of name status0 ?svc ?a1] s
  have act: "activeService ?a' =
         (if Active svc' \<and> \<not> Locked svc' then name
          else if activeService a = name \<and> \<not> Active svc' then '''' else activeService a)"
    by auto
  have c1: "\<forall>b. map_of status ''locked'' = Some (JBool b) \<longrightarrow> Locked svc' = b"
    using lk by simp
  have c2: "(\<forall>b. map_of status ''locked'' \<noteq> Some (JBool b)) \<longrightarrow> Locked svc' = Locked svc"
    using lk by (auto split: option.splits json.splits)
  have c3: "\<forall>b. map_of status ''active'' = Some (JBool b) \<longrightarrow> Active svc' = b"
    using ac by simp
  have c4: "\<forall>s. map_of status ''state'' = Some (JStr s)
              \<and> (\<forall>b. map_of status ''active'' \<noteq> Some (JBool b))
            \<longrightarrow> Active svc' = (s = ''playing'')"
    using ac by (auto split: option.splits json.splits)
  have c5: "(\<forall>b. map_of status ''active'' \<noteq> Some (JBool b))
          \<and> (\<forall>s. map_of status ''state'' \<noteq> Some (JStr s)) \<longrightarrow> Active svc' = Active svc"
    using ac by (auto split: option.splits json.splits)
  from res s on er c1 c2 c3 c4 c5 act show ?thesis by blast
qed

text \<open>
  The theorem at a concrete input: the player was offline and locked; it answers in its
  wrapped format that it is playing and unlocked, and becomes the designated active service.
\<close>

theorem pollServiceInternal_status_rules_witness:
  "services (two_services (player False True False) (bridge True True False) '''') ''usboveri2s''
     = Some (player False True False)
   \<and> do_request world_playing
        (length (trace (two_services (player False True False) (bridge True True False) '''')))
        (status_request ''usboveri2s'' (BaseURL (player False True False)))
       = Response 200 playing_body None
   \<and> json_unmarshal world_playing playing_body
       = Inr [(''success'', JBool True),
              (''data'', JObj [(''state'', JStr ''playing''), (''locked'', JBool False)])]
   \<and> [(''state'', JStr ''playing''), (''locked'', JBool False)]
       = unwrap_data [(''success'', JBool True),
              (''data'', JObj [(''state'', JStr ''playing''), (''locked'', JBool False)])]
   \<and> (\<exists>a' svc'. pollServiceInternal world_playing ''usboveri2s''
                   (two_services (player False True False) (bridge True True False) '''') = Some a'
        \<and> services a' ''usboveri2s'' = Some svc'
        \<and> Online svc' \<and> Error svc' = '''' \<and> \<not> Locked svc' \<and> Active svc'
        \<and> activeService a' = ''usboveri2s'')"
proof -
  let ?a = "two_services (player False True False) (bridge True True False) ''''"
  let ?raw = "[(''success'', JBool True),
              (''data'', JObj [(''state'', JStr ''playing''), (''locked'', JBool False)])]"
  let ?payload = "[(''state'', JStr ''playing''), (''locked'', JBool False)]"
  have reg: "services ?a ''usboveri2s'' = Some (player False True False)"
    by (simp add: two_services_def)
  have reply: "do_request world_playing (length (trace ?a))
        (status_request ''usboveri2s'' (BaseURL (player False True False)))
       = Response 200 playing_body None"
    by (simp add: world_playing_def)
  have dec: "json_unmarshal world_playing playing_body = Inr ?raw"
    by (simp add: world_playing_def)
  have st: "?payload = unwrap_data ?raw"
    by (simp add: unwrap_data_def)
  from pollServiceInternal_status_rules[OF reg reply dec st]
  obtain a' svc' where res: "pollServiceInternal world_playing ''usboveri2s'' ?a = Some a'"
    and s: "services a' ''usboveri2s'' = Some svc'" and on: "Online svc'" and er: "Error svc' = ''''"
    and c1: "\<forall>b. map_of ?payload ''locked'' = Some (JBool b) \<longrightarrow> Locked svc' = b"
    and c4: "\<forall>s. map_of ?payload ''state'' = Some (JStr s)
              \<and> (\<forall>b. map_of ?payload ''active'' \<noteq> Some (JBool b))
            \<longrightarrow> Active svc' = (s = ''playing'')"
    and act: "activeService a' =
         (if Active svc' \<and> \<not> Locked svc' then ''usboveri2s''
          else if activeService ?a = ''usboveri2s'' \<and> \<not> Active svc' then ''''
          else activeService ?a)"
    by blast
  have "map_of ?payload ''locked'' = Some (JBool False)" by simp
  with c1 have l: "\<not> Locked svc'" by blast
  have "map_of ?payload ''state'' = Some (JStr ''playing'')
      \<and> (\<forall>b. map_of ?payload ''active'' \<noteq> Some (JBool b))" by simp
  with c4 have "Active svc' = (''playing'' = ''playing'')" by blast
  then have ac: "Active svc'" by simp
  from act l ac have a: "activeService a' = ''usboveri2s''" by simp
  from reg reply dec st res s on er l ac a show ?thesis by blast
qed

text \<open>
  Counterexample to C8 as stated: the player is online, unlocked, active and the designated
  active service, and its status payload holds the string state "stopped" and no \<open>active\<close>
  field. By the rules of the claim only the state "playing" acts and an absent \<open>active\<close>
  field leaves the active state unchanged; the poll sets \<open>active = false\<close> and clears
  \<open>activeService\<close>.
\<close>

theorem pollServiceInternal_stopped_clears_active:
  "json_unmarshal world_stopped stopped_body = Inr [(''state'', JStr ''stopped'')]
   \<and> map_of (unwrap_data [(''state'', JStr ''stopped'')]) ''active'' = None
   \<and> Active (player True False True)
   \<and> map_option (\<lambda>a'. (map_option (\<lambda>s. (Online s, Active s, Locked s)) (services a' ''usboveri2s''),
                        activeService a'))
       (pollServiceInternal world_stopped ''usboveri2s''
          (two_services (player True False True) (bridge True True False) ''usboveri2s''))
     = Some (Some (True, False, False), '''')"
  by (simp add: pollServiceInternal_def world_stopped_def send_def store_def unwrap_data_def
      interpret_status_def Let_def two_services_def player_def)

end
